theory Spec2Isabelle
  imports Complex_Main "HOL-Library.Word" "HOL-Library.Log_Nat"
begin

section \<open>The dynamic occupancy map of app\_slam.c\<close>

text \<open>
  A shallow embedding of the mapping core of
  \<^verbatim>\<open>Firmware/ESP32/Arduino_platform/src/APP/app_slam.c\<close>: the wraparound addressing
  (\<^verbatim>\<open>MAP_OFFSET[ARG_RANGE_INCLUSIVE(..)]\<close>), the reset, the translation of the map, the
  clearing of the vehicle region and the per-tick update.

  Conventions of the embedding.
  \<^item> \<^verbatim>\<open>int32_t\<close> values are HOL integers. The theorems about the claims bound the
    centre index and the pixel shifts by a few hundred, far inside the 32-bit range, so
    no C addition or multiplication of the modelled code overflows there. The unsigned macro constants
    (\<^verbatim>\<open>100U\<close>, \<^verbatim>\<open>10U\<close>, ...) only meet non-negative operands or are converted back to
    \<^verbatim>\<open>int32_t\<close> on assignment, which on a two's complement target is the signed result.
  \<^item> \<^verbatim>\<open>map_pixel_data_t\<close> is \<^verbatim>\<open>int8_t\<close>: an 8-bit word, read signed with \<open>sint\<close>.
  \<^item> A \<^verbatim>\<open>float\<close> is the real number it denotes, and every float operation of the
    source (\<open>+\<close>, \<open>-\<close>, \<open>*\<close>, \<open>/\<close>, the conversion of an integer) is the real operation
    followed by the rounding \<open>binary32\<close> to the nearest binary32 value, ties to even, with
    subnormals. Infinities and NaN are not values of the model: a result beyond the
    binary32 range stays a (huge) real, and the tick then faults at the cast to
    \<^verbatim>\<open>int32_t\<close>, which is undefined in C for an infinity as well.
  \<^item> The static \<^verbatim>\<open>slam_data.gMap\<close> is passed explicitly: every function takes the map and
    returns the updated map.
  \<^item> A store outside \<^verbatim>\<open>data[]\<close> is undefined behaviour in C. It is a value of the model:
    the function returns \<open>Inl OutOfBounds\<close> at the first such store.
\<close>

subsection \<open>Parameters and pre-compile constants\<close>

type_synonym int32_t = int
type_synonym map_pixel_data_t = "8 word"

definition ROBOT_SIZE_D_MM :: int where
  "ROBOT_SIZE_D_MM = 100"

definition GMAP_SQUARE_EDGE_SIZE_MM :: int where
  "GMAP_SQUARE_EDGE_SIZE_MM = 1000"

definition GMAP_UNIT_GRID_STEP_SIZE_MM :: int where
  "GMAP_UNIT_GRID_STEP_SIZE_MM = 10"

definition GRID_CELL_NEUTRAL :: map_pixel_data_t where
  "GRID_CELL_NEUTRAL = 0"

definition GRID_CELL_VISITED :: map_pixel_data_t where
  "GRID_CELL_VISITED = - 10"

definition GRID_CELL_OCCUPANCY_MAX_PROB :: int where
  "GRID_CELL_OCCUPANCY_MAX_PROB = 100"

definition GRID_CELL_EDGE_MIN_PROB :: int where
  "GRID_CELL_EDGE_MIN_PROB = 101"

definition GRID_CELL_EDGE_MAX_PROB :: int where
  "GRID_CELL_EDGE_MAX_PROB = 120"

definition GRID_CELL_WALKABLE_THRESHOLD_MAX :: int where
  "GRID_CELL_WALKABLE_THRESHOLD_MAX = 20"

definition GRID_CELL_WALKABLE_THRESHOLD_MIN :: int where
  "GRID_CELL_WALKABLE_THRESHOLD_MIN = - 20"

definition ROBOT_SIZE_D_PIXEL :: int where
  "ROBOT_SIZE_D_PIXEL = ROBOT_SIZE_D_MM div GMAP_UNIT_GRID_STEP_SIZE_MM"

definition ROBOT_SIZE_R_PIXEL :: int where
  "ROBOT_SIZE_R_PIXEL = ROBOT_SIZE_D_PIXEL div 2"

definition GMAP_GRID_EDGE_SIZE_PIXEL :: int where
  "GMAP_GRID_EDGE_SIZE_PIXEL = GMAP_SQUARE_EDGE_SIZE_MM div GMAP_UNIT_GRID_STEP_SIZE_MM"

definition GMAP_WN_PIXEL :: int where
  "GMAP_WN_PIXEL = GMAP_GRID_EDGE_SIZE_PIXEL + 1"

definition GMAP_HN_PIXEL :: int where
  "GMAP_HN_PIXEL = GMAP_GRID_EDGE_SIZE_PIXEL + 1"

definition GMAP_DEFAULT_CENTRAL_X_INDEX_PIXEL :: int where
  "GMAP_DEFAULT_CENTRAL_X_INDEX_PIXEL = GMAP_GRID_EDGE_SIZE_PIXEL div 2"

definition GMAP_DEFAULT_CENTRAL_Y_INDEX_PIXEL :: int where
  "GMAP_DEFAULT_CENTRAL_Y_INDEX_PIXEL = GMAP_GRID_EDGE_SIZE_PIXEL div 2"

subsection \<open>Macro functions and the offset table\<close>

text \<open>
  \<^verbatim>\<open>ARG_RANGE_INCLUSIVE(x_val, min, max)\<close> is the sum of two comparisons, each 0 or 1,
  cast to \<^verbatim>\<open>uint8_t\<close>; it indexes \<^verbatim>\<open>MAP_OFFSET\<close>.
\<close>

definition ARG_RANGE_INCLUSIVE :: "int32_t \<Rightarrow> int32_t \<Rightarrow> int32_t \<Rightarrow> nat" where
  "ARG_RANGE_INCLUSIVE x_val mn mx =
     (if x_val \<ge> mn then 1 else 0) + (if x_val \<ge> mx then 1 else 0)"

definition MAP_OFFSET :: "int32_t list" where
  "MAP_OFFSET = [GMAP_WN_PIXEL, 0, - GMAP_WN_PIXEL]"

text \<open>
  The source writes the wrap of a coordinate inline, always as
  \<^verbatim>\<open>c + MAP_OFFSET[ARG_RANGE_INCLUSIVE((int32_t)(c), 0, GMAP_WN_PIXEL)]\<close> (with
  \<^verbatim>\<open>GMAP_HN_PIXEL\<close> for rows). The two definitions below name that expression.
\<close>

definition wrap_x :: "int32_t \<Rightarrow> int32_t" where
  "wrap_x c = c + MAP_OFFSET ! ARG_RANGE_INCLUSIVE c 0 GMAP_WN_PIXEL"

definition wrap_y :: "int32_t \<Rightarrow> int32_t" where
  "wrap_y c = c + MAP_OFFSET ! ARG_RANGE_INCLUSIVE c 0 GMAP_HN_PIXEL"

subsection \<open>The map and its stores\<close>

record 'a math_cart_coord =
  coord_x :: 'a
  coord_y :: 'a

type_synonym math_cart_coord_int32_S = "int32_t math_cart_coord"
type_synonym math_cart_coord_float_S = "real math_cart_coord"

record dynamic_map_S =
  data :: "map_pixel_data_t list"
  map_center_pixel :: math_cart_coord_int32_S
  map_offset_mm :: math_cart_coord_float_S

datatype fault = OutOfBounds | FloatToIntRange

text \<open>\<^verbatim>\<open>mdata[k] = v\<close> for an \<^verbatim>\<open>int32_t\<close> index \<open>k\<close>.\<close>

definition mstore ::
  "map_pixel_data_t list \<Rightarrow> int32_t \<Rightarrow> map_pixel_data_t \<Rightarrow> fault + map_pixel_data_t list" where
  "mstore mdata k v =
     (if 0 \<le> k \<and> k < int (length mdata) then Inr (mdata[nat k := v]) else Inl OutOfBounds)"

text \<open>A run of stores of one value, in program order, stopping at the first fault.\<close>

fun mstores ::
  "map_pixel_data_t list \<Rightarrow> int32_t list \<Rightarrow> map_pixel_data_t \<Rightarrow> fault + map_pixel_data_t list" where
  "mstores mdata [] v = Inr mdata"
| "mstores mdata (k # ks) v =
     (case mstore mdata k v of Inl e \<Rightarrow> Inl e | Inr mdata' \<Rightarrow> mstores mdata' ks v)"

subsection \<open>Reset and initialisation\<close>

text \<open>
  \<^verbatim>\<open>memset(&slam_data.gMap, 0, sizeof(dynamic_map_S))\<close> zeroes the
  \<^verbatim>\<open>GMAP_WN_PIXEL * GMAP_HN_PIXEL\<close> cells, the centre and the offset (the all-zero
  bit pattern of a float is 0.0); then the centre is assigned.
\<close>

definition memset_zero :: dynamic_map_S where
  "memset_zero =
     \<lparr> data = replicate (nat (GMAP_WN_PIXEL * GMAP_HN_PIXEL)) 0,
       map_center_pixel = \<lparr> coord_x = 0, coord_y = 0 \<rparr>,
       map_offset_mm = \<lparr> coord_x = 0, coord_y = 0 \<rparr> \<rparr>"

definition app_slam_private_resetGlobalMap :: "dynamic_map_S \<Rightarrow> dynamic_map_S" where
  "app_slam_private_resetGlobalMap gMap =
     memset_zero \<lparr> map_center_pixel :=
       \<lparr> coord_x = GMAP_DEFAULT_CENTRAL_X_INDEX_PIXEL,
         coord_y = GMAP_DEFAULT_CENTRAL_Y_INDEX_PIXEL \<rparr> \<rparr>"

definition app_slam_init :: dynamic_map_S where
  "app_slam_init = app_slam_private_resetGlobalMap memset_zero"

subsection \<open>Translation of the map\<close>

text \<open>
  The indices stored to by the inner loop of the column reset,
  \<^verbatim>\<open>for (i = start; i < end; i++)\<close>, at the row offset \<open>y_index\<close>.
\<close>

definition reset_columns_in_row :: "int32_t \<Rightarrow> int32_t \<Rightarrow> int32_t \<Rightarrow> int32_t list" where
  "reset_columns_in_row start end y_index =
     map (\<lambda>i. let x_index = i + MAP_OFFSET ! ARG_RANGE_INCLUSIVE i 0 GMAP_WN_PIXEL
              in y_index + x_index) [start..end - 1]"

text \<open>
  The outer loop \<^verbatim>\<open>for (j = 0; j < GMAP_HN_PIXEL; j++)\<close>: \<open>n\<close> iterations are left,
  and \<open>y_index\<close> grows by \<^verbatim>\<open>GMAP_WN_PIXEL\<close> after each.
\<close>

fun reset_columns :: "nat \<Rightarrow> int32_t \<Rightarrow> int32_t \<Rightarrow> int32_t \<Rightarrow> int32_t list" where
  "reset_columns 0 y_index start end = []"
| "reset_columns (Suc n) y_index start end =
     reset_columns_in_row start end y_index @ reset_columns n (y_index + GMAP_WN_PIXEL) start end"

text \<open>
  The row reset: \<^verbatim>\<open>for (j = start; j < end; j++)\<close> wraps \<open>j\<close>, scales it by
  \<^verbatim>\<open>GMAP_WN_PIXEL\<close> and stores to every column of that row.
\<close>

definition reset_rows :: "int32_t \<Rightarrow> int32_t \<Rightarrow> int32_t list" where
  "reset_rows start end =
     concat (map (\<lambda>j. let y_index = (j + MAP_OFFSET ! ARG_RANGE_INCLUSIVE j 0 GMAP_HN_PIXEL)
                                      * GMAP_WN_PIXEL
                      in map (\<lambda>i. y_index + i) [0..GMAP_WN_PIXEL - 1]) [start..end - 1])"

text \<open>
  Both reset blocks compute their loop bounds in the same way:
  \<^verbatim>\<open>start = c00; end = c00; if (d >= 0) { end += d; } else { start += d; }\<close>.
\<close>

definition band_start :: "int32_t \<Rightarrow> int32_t \<Rightarrow> int32_t" where
  "band_start c00 d = (if d \<ge> 0 then c00 else c00 + d)"

definition band_end :: "int32_t \<Rightarrow> int32_t \<Rightarrow> int32_t" where
  "band_end c00 d = (if d \<ge> 0 then c00 + d else c00)"

text \<open>The block \<^verbatim>\<open>if (dx_pixel != 0) { ... }\<close> ("reset Vertical Columns").\<close>

definition reset_vertical_columns ::
  "int32_t \<Rightarrow> int32_t \<Rightarrow> map_pixel_data_t list \<Rightarrow> fault + map_pixel_data_t list" where
  "reset_vertical_columns dx_pixel x00 mdata =
     (if dx_pixel \<noteq> 0
      then mstores mdata
             (reset_columns (nat GMAP_HN_PIXEL) 0 (band_start x00 dx_pixel) (band_end x00 dx_pixel))
             GRID_CELL_NEUTRAL
      else Inr mdata)"

text \<open>The block \<^verbatim>\<open>if (dy_pixel != 0) { ... }\<close> ("reset Horizontal Columns").\<close>

definition reset_horizontal_rows ::
  "int32_t \<Rightarrow> int32_t \<Rightarrow> map_pixel_data_t list \<Rightarrow> fault + map_pixel_data_t list" where
  "reset_horizontal_rows dy_pixel y00 mdata =
     (if dy_pixel \<noteq> 0
      then mstores mdata (reset_rows (band_start y00 dy_pixel) (band_end y00 dy_pixel))
             GRID_CELL_NEUTRAL
      else Inr mdata)"

definition app_slam_private_translateGlobalMap ::
  "int32_t \<Rightarrow> int32_t \<Rightarrow> dynamic_map_S \<Rightarrow> fault + dynamic_map_S" where
  "app_slam_private_translateGlobalMap dx_pixel dy_pixel gMap =
     (let mc_pixel = map_center_pixel gMap;
          x00 = coord_x mc_pixel - GMAP_DEFAULT_CENTRAL_X_INDEX_PIXEL;
          y00 = coord_y mc_pixel - GMAP_DEFAULT_CENTRAL_Y_INDEX_PIXEL
      in case reset_vertical_columns dx_pixel x00 (data gMap) of
           Inl e \<Rightarrow> Inl e
         | Inr mdata1 \<Rightarrow>
        (case reset_horizontal_rows dy_pixel y00 mdata1 of
           Inl e \<Rightarrow> Inl e
         | Inr mdata2 \<Rightarrow>
            (let x1 = coord_x mc_pixel + dx_pixel;
                 y1 = coord_y mc_pixel + dy_pixel;
                 x2 = x1 + MAP_OFFSET ! ARG_RANGE_INCLUSIVE x1 0 GMAP_WN_PIXEL;
                 y2 = y1 + MAP_OFFSET ! ARG_RANGE_INCLUSIVE y1 0 GMAP_HN_PIXEL
             in Inr (gMap \<lparr> data := mdata2,
                           map_center_pixel := \<lparr> coord_x = x2, coord_y = y2 \<rparr> \<rparr>))))"

subsection \<open>Clearing the vehicle region\<close>

text \<open>
  The table \<^verbatim>\<open>const int8_t PADDING[ROBOT_SIZE_D_PIXEL + 1U]\<close>; its entries are only read
  into the \<^verbatim>\<open>int32_t dx_pad\<close>.
\<close>

definition PADDING :: "int32_t list" where
  "PADDING = [4, 2, 1, 1, 0, 0, 0, 1, 1, 2, 4]"

text \<open>
  The indices stored to by \<^verbatim>\<open>app_slam_private_clearVehicleRegion\<close>, in program order:
  rows \<^verbatim>\<open>j = 0 .. ROBOT_SIZE_D_PIXEL\<close>, and in row \<open>j\<close> the columns
  \<^verbatim>\<open>i = dx_pad .. ROBOT_SIZE_D_PIXEL - dx_pad\<close>.
\<close>

definition vehicle_region :: "math_cart_coord_int32_S \<Rightarrow> int32_t list" where
  "vehicle_region mc_pixel =
     (let cx_offsetted = coord_x mc_pixel - ROBOT_SIZE_R_PIXEL;
          cy_offsetted = coord_y mc_pixel - ROBOT_SIZE_R_PIXEL
      in concat (map (\<lambda>j.
           let y0 = cy_offsetted + j;
               y1 = y0 + MAP_OFFSET ! ARG_RANGE_INCLUSIVE y0 0 GMAP_HN_PIXEL;
               y = y1 * GMAP_WN_PIXEL;
               dx_pad = PADDING ! nat j
           in map (\<lambda>i.
                let x0 = cx_offsetted + i;
                    x = x0 + MAP_OFFSET ! ARG_RANGE_INCLUSIVE x0 0 GMAP_WN_PIXEL
                in y + x) [dx_pad..ROBOT_SIZE_D_PIXEL - dx_pad])
         [0..ROBOT_SIZE_D_PIXEL]))"

definition app_slam_private_clearVehicleRegion :: "dynamic_map_S \<Rightarrow> fault + dynamic_map_S" where
  "app_slam_private_clearVehicleRegion gMap =
     (case mstores (data gMap) (vehicle_region (map_center_pixel gMap)) GRID_CELL_VISITED of
        Inl e \<Rightarrow> Inl e
      | Inr mdata \<Rightarrow> Inr (gMap \<lparr> data := mdata \<rparr>))"

subsection \<open>Binary32 arithmetic\<close>

text \<open>
  Rounding of a real to the nearest integer, ties to the even one.
\<close>

definition round_half_even :: "real \<Rightarrow> int" where
  "round_half_even y =
     (let f = \<lfloor>y\<rfloor>; d = y - real_of_int f
      in if d < 1 / 2 then f else if 1 / 2 < d then f + 1 else if even f then f else f + 1)"

text \<open>
  The binary exponent of a binary32 value near \<open>x \<noteq> 0\<close>: \<open>\<lfloor>log\<^sub>2 |x|\<rfloor>\<close>, and \<open>-126\<close> below
  the normal range (the subnormals share the exponent of the smallest normal value). The
  logarithm is computed from the bit length of the integral part of \<open>|x|\<close> when
  \<open>|x| \<ge> 1\<close>, and of \<open>1 / |x|\<close> otherwise (lemma \<open>binary32_exponent_log\<close>).
\<close>

definition binary32_exponent :: "real \<Rightarrow> int" where
  "binary32_exponent x =
     max (if 1 \<le> \<bar>x\<bar> then bitlen \<lfloor>\<bar>x\<bar>\<rfloor> - 1 else - bitlen (\<lceil>1 / \<bar>x\<bar>\<rceil> - 1)) (- 126)"

text \<open>
  Rounding of a real to binary32: a value with binary exponent \<open>e\<close> is rounded to the
  nearest multiple of \<open>2\<^sup>e\<^sup>-\<^sup>2\<^sup>3\<close>, which leaves 24 significant bits.
\<close>

definition binary32 :: "real \<Rightarrow> real" where
  "binary32 x =
     (if x = 0 then 0
      else real_of_int (round_half_even (x / 2 powi (binary32_exponent x - 23)))
             * 2 powi (binary32_exponent x - 23))"

subsection \<open>The per-tick update\<close>

text \<open>
  The cast \<^verbatim>\<open>(int32_t)\<close> of a float discards the fractional part (truncation toward
  zero); it is undefined when the integral part is not an \<^verbatim>\<open>int32_t\<close>.
\<close>

definition trunc_toward_zero :: "real \<Rightarrow> int" where
  "trunc_toward_zero r = (if r \<ge> 0 then \<lfloor>r\<rfloor> else - \<lfloor>- r\<rfloor>)"

definition float_to_int32 :: "real \<Rightarrow> fault + int32_t" where
  "float_to_int32 r =
     (let t = trunc_toward_zero r
      in if - (2 ^ 31) \<le> t \<and> t < 2 ^ 31 then Inr t else Inl FloatToIntRange)"

text \<open>
  \<^verbatim>\<open>(int32_t)((x_mm)/(GMAP_UNIT_GRID_STEP_SIZE_MM))\<close>: the unsigned \<open>10U\<close> is converted to
  the float \<open>10.0\<close> (exact), the quotient is a float, and the cast truncates it.
\<close>

definition GMAP_MM_TO_UNIT_PIXEL :: "real \<Rightarrow> fault + int32_t" where
  "GMAP_MM_TO_UNIT_PIXEL x_mm =
     float_to_int32 (binary32 (x_mm / real_of_int GMAP_UNIT_GRID_STEP_SIZE_MM))"

text \<open>
  \<^verbatim>\<open>(float)((x_pixel) * (float)(GMAP_UNIT_GRID_STEP_SIZE_MM))\<close>: the \<^verbatim>\<open>int32_t\<close> is
  converted to a float and the product is a float.
\<close>

definition GMAP_UNIT_PIXEL_TO_MM :: "int32_t \<Rightarrow> real" where
  "GMAP_UNIT_PIXEL_TO_MM x_pixel =
     binary32 (binary32 (real_of_int x_pixel) * real_of_int GMAP_UNIT_GRID_STEP_SIZE_MM)"

text \<open>
  \<^verbatim>\<open>app_slam_private_globalMapUpdate\<close> with the displacement of the tick as a parameter
  (two float values). The source has no localisation yet and fixes both components to
  \<^verbatim>\<open>-10.0f\<close> (\<^verbatim>\<open>mock_dx_mm\<close>, \<^verbatim>\<open>mock_dy_mm\<close>).
\<close>

definition globalMapUpdate_from ::
  "real \<Rightarrow> real \<Rightarrow> dynamic_map_S \<Rightarrow> fault + dynamic_map_S" where
  "globalMapUpdate_from mock_dx_mm mock_dy_mm gMap =
     (let dx_mm = binary32 (mock_dx_mm + coord_x (map_offset_mm gMap));
          dy_mm = binary32 (mock_dy_mm + coord_y (map_offset_mm gMap))
      in case GMAP_MM_TO_UNIT_PIXEL dx_mm of
           Inl e \<Rightarrow> Inl e
         | Inr dx_pixel \<Rightarrow>
        (case GMAP_MM_TO_UNIT_PIXEL dy_mm of
           Inl e \<Rightarrow> Inl e
         | Inr dy_pixel \<Rightarrow>
        (case app_slam_private_translateGlobalMap dx_pixel dy_pixel gMap of
           Inl e \<Rightarrow> Inl e
         | Inr gMap1 \<Rightarrow>
            app_slam_private_clearVehicleRegion
              (gMap1 \<lparr> map_offset_mm :=
                 \<lparr> coord_x = binary32 (dx_mm - GMAP_UNIT_PIXEL_TO_MM dx_pixel),
                   coord_y = binary32 (dy_mm - GMAP_UNIT_PIXEL_TO_MM dy_pixel) \<rparr> \<rparr>))))"

definition app_slam_private_globalMapUpdate :: "dynamic_map_S \<Rightarrow> fault + dynamic_map_S" where
  "app_slam_private_globalMapUpdate gMap = globalMapUpdate_from (- 10) (- 10) gMap"

text \<open>
  What one tick computes on one axis (the lines for \<open>dx\<close>, and again for \<open>dy\<close>): the
  combined displacement, the pixel shift handed to the translation, and the leftover
  stored in \<^verbatim>\<open>map_offset_mm\<close>.
\<close>

definition drift_axis :: "real \<Rightarrow> real \<Rightarrow> fault + int32_t \<times> real" where
  "drift_axis mock_mm offset_mm =
     (let d_mm = binary32 (mock_mm + offset_mm)
      in case GMAP_MM_TO_UNIT_PIXEL d_mm of
           Inl e \<Rightarrow> Inl e
         | Inr d_pixel \<Rightarrow> Inr (d_pixel, binary32 (d_mm - GMAP_UNIT_PIXEL_TO_MM d_pixel)))"


subsection \<open>Reading the map\<close>

text \<open>
  \<^verbatim>\<open>app_slam_private_debugPrintMap\<close> reads the cell at column \<open>i\<close> and row \<open>j\<close> of
  the memory layout as \<^verbatim>\<open>mdata[j * GMAP_WN_PIXEL + i]\<close>, and the cell at column \<open>i\<close>
  and row \<open>j\<close> of the window centred on the vehicle through the wrapped index below
  (\<open>i\<close> and \<open>j\<close> run over \<open>0 .. GMAP_GRID_EDGE_SIZE_PIXEL\<close>; the vehicle is at
  \<open>(E/2, E/2)\<close>).
\<close>

definition memory_index :: "int32_t \<Rightarrow> int32_t \<Rightarrow> int32_t" where
  "memory_index i j = j * GMAP_WN_PIXEL + i"

definition centered_index :: "math_cart_coord_int32_S \<Rightarrow> int32_t \<Rightarrow> int32_t \<Rightarrow> int32_t" where
  "centered_index mc_pixel i j =
     (let cx = coord_x mc_pixel - GMAP_DEFAULT_CENTRAL_X_INDEX_PIXEL;
          cy = coord_y mc_pixel - GMAP_DEFAULT_CENTRAL_Y_INDEX_PIXEL;
          y0 = cy + j;
          y = (y0 + MAP_OFFSET ! ARG_RANGE_INCLUSIVE y0 0 GMAP_HN_PIXEL) * GMAP_WN_PIXEL;
          x0 = cx + i;
          x = x0 + MAP_OFFSET ! ARG_RANGE_INCLUSIVE x0 0 GMAP_HN_PIXEL
      in y + x)"

subsection \<open>Predicates of the statements\<close>

text \<open>The centre index lies in \<open>[0, E]\<close> on both axes.\<close>

definition center_in_range :: "dynamic_map_S \<Rightarrow> bool" where
  "center_in_range gMap \<longleftrightarrow>
     0 \<le> coord_x (map_center_pixel gMap)
     \<and> coord_x (map_center_pixel gMap) \<le> GMAP_GRID_EDGE_SIZE_PIXEL
     \<and> 0 \<le> coord_y (map_center_pixel gMap)
     \<and> coord_y (map_center_pixel gMap) \<le> GMAP_GRID_EDGE_SIZE_PIXEL"

text \<open>The buffer has the size of the C array \<^verbatim>\<open>data[GMAP_WN_PIXEL * GMAP_HN_PIXEL]\<close>.\<close>

definition buffer_sized :: "dynamic_map_S \<Rightarrow> bool" where
  "buffer_sized gMap \<longleftrightarrow> length (data gMap) = nat (GMAP_WN_PIXEL * GMAP_HN_PIXEL)"

text \<open>
  The columns (or rows) of the memory layout that a reset block with \<open>c00\<close> and shift
  \<open>d\<close> visits: the wraps of \<open>band_start c00 d .. band_end c00 d - 1\<close>.
\<close>

definition in_band :: "int32_t \<Rightarrow> int32_t \<Rightarrow> int32_t \<Rightarrow> bool" where
  "in_band c00 d c \<longleftrightarrow> c \<in> wrap_x ` {band_start c00 d..<band_end c00 d}"

text \<open>
  The states the core can reach: from initialisation by resets, by translations whose
  shift is at most \<open>E\<close> pixels on each axis, by clearings of the vehicle region and by
  ticks whose pixel shift is at most \<open>E\<close> on each axis, each completing without a fault.
\<close>

inductive reachable :: "dynamic_map_S \<Rightarrow> bool" where
  reach_init: "reachable app_slam_init"
| reach_reset: "reachable gMap \<Longrightarrow> reachable (app_slam_private_resetGlobalMap gMap)"
| reach_translate:
    "reachable gMap \<Longrightarrow> \<bar>dx_pixel\<bar> \<le> GMAP_GRID_EDGE_SIZE_PIXEL \<Longrightarrow>
     \<bar>dy_pixel\<bar> \<le> GMAP_GRID_EDGE_SIZE_PIXEL \<Longrightarrow>
     app_slam_private_translateGlobalMap dx_pixel dy_pixel gMap = Inr gMap' \<Longrightarrow> reachable gMap'"
| reach_clear:
    "reachable gMap \<Longrightarrow> app_slam_private_clearVehicleRegion gMap = Inr gMap' \<Longrightarrow>
     reachable gMap'"
| reach_tick:
    "reachable gMap \<Longrightarrow>
     GMAP_MM_TO_UNIT_PIXEL (binary32 (mock_dx_mm + coord_x (map_offset_mm gMap))) = Inr dx_pixel \<Longrightarrow>
     GMAP_MM_TO_UNIT_PIXEL (binary32 (mock_dy_mm + coord_y (map_offset_mm gMap))) = Inr dy_pixel \<Longrightarrow>
     \<bar>dx_pixel\<bar> \<le> GMAP_GRID_EDGE_SIZE_PIXEL \<Longrightarrow>
     \<bar>dy_pixel\<bar> \<le> GMAP_GRID_EDGE_SIZE_PIXEL \<Longrightarrow>
     globalMapUpdate_from mock_dx_mm mock_dy_mm gMap = Inr gMap' \<Longrightarrow> reachable gMap'"

section \<open>Wraparound addressing\<close>

lemma pixel_constants:
  "GMAP_GRID_EDGE_SIZE_PIXEL = 100" "GMAP_WN_PIXEL = 101" "GMAP_HN_PIXEL = 101"
  "GMAP_DEFAULT_CENTRAL_X_INDEX_PIXEL = 50" "GMAP_DEFAULT_CENTRAL_Y_INDEX_PIXEL = 50"
  "ROBOT_SIZE_D_PIXEL = 10" "ROBOT_SIZE_R_PIXEL = 5"
  by (simp_all add: GMAP_GRID_EDGE_SIZE_PIXEL_def GMAP_WN_PIXEL_def GMAP_HN_PIXEL_def
      GMAP_DEFAULT_CENTRAL_X_INDEX_PIXEL_def GMAP_DEFAULT_CENTRAL_Y_INDEX_PIXEL_def
      ROBOT_SIZE_D_PIXEL_def ROBOT_SIZE_R_PIXEL_def ROBOT_SIZE_D_MM_def
      GMAP_SQUARE_EDGE_SIZE_MM_def GMAP_UNIT_GRID_STEP_SIZE_MM_def)

lemma map_offset_cases:
  "MAP_OFFSET ! ARG_RANGE_INCLUSIVE c 0 GMAP_WN_PIXEL =
     (if c < 0 then 101 else if c \<ge> 101 then - 101 else 0)"
  by (simp add: MAP_OFFSET_def ARG_RANGE_INCLUSIVE_def pixel_constants)

lemma wrap_x_cases: "wrap_x c = (if c < 0 then c + 101 else if c \<ge> 101 then c - 101 else c)"
  by (simp add: wrap_x_def map_offset_cases)

lemma wrap_y_eq: "wrap_y c = wrap_x c"
  by (simp add: wrap_y_def wrap_x_def pixel_constants)

text \<open>
  C1. For every coordinate \<open>c\<close> in \<open>[-E, 2E]\<close> (\<open>E = GMAP_GRID_EDGE_SIZE_PIXEL = 100\<close>),
  the wrap \<open>c + MAP_OFFSET[ARG_RANGE_INCLUSIVE(c, 0, E + 1)]\<close> lies in \<open>[0, E]\<close> and is
  congruent to \<open>c\<close> modulo \<open>E + 1\<close>; the offset added is \<open>E + 1\<close> when \<open>c < 0\<close>,
  \<open>-(E + 1)\<close> when \<open>c > E\<close> and \<open>0\<close> otherwise.
\<close>

theorem wraparound_correct:
  assumes "- GMAP_GRID_EDGE_SIZE_PIXEL \<le> c" and "c \<le> 2 * GMAP_GRID_EDGE_SIZE_PIXEL"
  shows "0 \<le> wrap_x c \<and> wrap_x c \<le> GMAP_GRID_EDGE_SIZE_PIXEL
    \<and> wrap_x c mod (GMAP_GRID_EDGE_SIZE_PIXEL + 1) = c mod (GMAP_GRID_EDGE_SIZE_PIXEL + 1)
    \<and> wrap_y c = wrap_x c
    \<and> GMAP_GRID_EDGE_SIZE_PIXEL = 100
    \<and> GMAP_WN_PIXEL = GMAP_GRID_EDGE_SIZE_PIXEL + 1
    \<and> MAP_OFFSET ! ARG_RANGE_INCLUSIVE c 0 GMAP_WN_PIXEL =
        (if c < 0 then GMAP_GRID_EDGE_SIZE_PIXEL + 1
         else if c > GMAP_GRID_EDGE_SIZE_PIXEL then - (GMAP_GRID_EDGE_SIZE_PIXEL + 1)
         else 0)"
proof -
  have c: "- 100 \<le> c" "c \<le> 200"
    using assms by (simp_all add: pixel_constants)
  have off: "MAP_OFFSET ! ARG_RANGE_INCLUSIVE c 0 GMAP_WN_PIXEL =
      (if c < 0 then 101 else if c > 100 then - 101 else 0)"
    by (simp add: map_offset_cases)
  have rng: "0 \<le> wrap_x c \<and> wrap_x c \<le> 100"
    using c by (simp add: wrap_x_cases)
  have "wrap_x c mod 101 = c mod 101"
  proof (cases "c < 0")
    case True
    then have "wrap_x c = c + 101" by (simp add: wrap_x_cases)
    then show ?thesis by simp
  next
    case False
    show ?thesis
    proof (cases "c \<ge> 101")
      case True
      then have "wrap_x c = c - 101" by (simp add: wrap_x_cases)
      then show ?thesis by simp
    next
      case False
      with \<open>\<not> c < 0\<close> show ?thesis by (simp add: wrap_x_cases)
    qed
  qed
  with rng off show ?thesis by (simp add: pixel_constants wrap_y_eq)
qed

theorem wraparound_correct_witness:
  "- GMAP_GRID_EDGE_SIZE_PIXEL \<le> - 1 \<and> (- 1 :: int) \<le> 2 * GMAP_GRID_EDGE_SIZE_PIXEL
   \<and> wrap_x (- 1) = 100 \<and> wrap_x (- 1) mod 101 = (- 1) mod 101
   \<and> MAP_OFFSET ! ARG_RANGE_INCLUSIVE (- 1) 0 GMAP_WN_PIXEL = 101"
  using wraparound_correct [of "- 1"]
  by (simp add: pixel_constants wrap_x_cases)

section \<open>Stores and the index lists of the loops\<close>

lemma mstore_Inr: "mstore m k v = Inr m' \<longleftrightarrow> 0 \<le> k \<and> k < int (length m) \<and> m' = m[nat k := v]"
  by (auto simp: mstore_def)

lemma mstore_Inl: "mstore m k v = Inl e \<longleftrightarrow> \<not> (0 \<le> k \<and> k < int (length m)) \<and> e = OutOfBounds"
  by (auto simp: mstore_def)

lemma mstores_length: "mstores m ks v = Inr m' \<Longrightarrow> length m' = length m"
proof (induction ks arbitrary: m)
  case Nil
  then show ?case by simp
next
  case (Cons k ks)
  then show ?case by (auto simp: mstore_Inr split: sum.splits)
qed

lemma mstores_in_range:
  "mstores m ks v = Inr m' \<Longrightarrow> k \<in> set ks \<Longrightarrow> 0 \<le> k \<and> k < int (length m)"
proof (induction ks arbitrary: m)
  case Nil
  then show ?case by simp
next
  case (Cons a ks)
  from Cons.prems obtain m1 where m1: "mstore m a v = Inr m1" and rest: "mstores m1 ks v = Inr m'"
    by (auto split: sum.splits)
  from m1 have a: "0 \<le> a" "a < int (length m)" and len: "length m1 = length m"
    by (auto simp: mstore_Inr)
  show ?case
  proof (cases "k = a")
    case True
    with a show ?thesis by simp
  next
    case False
    with Cons.prems have "k \<in> set ks" by simp
    from Cons.IH [OF rest this] len show ?thesis by simp
  qed
qed

lemma mstores_nth:
  "mstores m ks v = Inr m' \<Longrightarrow> n < length m \<Longrightarrow> m' ! n = (if int n \<in> set ks then v else m ! n)"
proof (induction ks arbitrary: m)
  case Nil
  then show ?case by simp
next
  case (Cons a ks)
  from Cons.prems obtain m1 where m1: "mstore m a v = Inr m1" and rest: "mstores m1 ks v = Inr m'"
    by (auto split: sum.splits)
  from m1 have a: "0 \<le> a" "a < int (length m)" and m1_eq: "m1 = m[nat a := v]"
    by (simp_all add: mstore_Inr)
  have "n < length m1" using Cons.prems m1_eq by simp
  from Cons.IH [OF rest this] have "m' ! n = (if int n \<in> set ks then v else m1 ! n)" .
  moreover have "m1 ! n = (if int n = a then v else m ! n)"
    using a Cons.prems m1_eq by (auto simp: nth_list_update)
  ultimately show ?case by auto
qed

lemma mstores_total:
  "(\<And>k. k \<in> set ks \<Longrightarrow> 0 \<le> k \<and> k < int (length m)) \<Longrightarrow> \<exists>m'. mstores m ks v = Inr m'"
proof (induction ks arbitrary: m)
  case Nil
  then show ?case by simp
next
  case (Cons a ks)
  have a: "0 \<le> a \<and> a < int (length m)" using Cons.prems by simp
  then have m1: "mstore m a v = Inr (m[nat a := v])" by (simp add: mstore_def)
  have "\<exists>m'. mstores (m[nat a := v]) ks v = Inr m'"
    by (rule Cons.IH) (use Cons.prems in simp)
  with m1 show ?case by simp
qed

lemma mstores_fault:
  "k \<in> set ks \<Longrightarrow> \<not> (0 \<le> k \<and> k < int (length m)) \<Longrightarrow> mstores m ks v = Inl OutOfBounds"
proof (induction ks arbitrary: m)
  case Nil
  then show ?case by simp
next
  case (Cons a ks)
  show ?case
  proof (cases "mstore m a v")
    case (Inl e)
    then have "e = OutOfBounds" by (simp add: mstore_Inl)
    with Inl show ?thesis by simp
  next
    case (Inr m1)
    then have "length m1 = length m" "a \<noteq> k"
      using Cons.prems by (auto simp: mstore_Inr)
    with Cons Inr show ?thesis by simp
  qed
qed

lemma reset_columns_in_row_set:
  "set (reset_columns_in_row start end y_index) = (\<lambda>i. y_index + wrap_x i) ` {start..<end}"
proof -
  have "{start..end - 1} = {start..<end}" by auto
  then show ?thesis by (simp add: reset_columns_in_row_def wrap_x_def)
qed

lemma reset_columns_set:
  "set (reset_columns n y_index start end) =
     {y_index + int j * 101 + wrap_x i | j i. j < n \<and> start \<le> i \<and> i < end}"
proof (induction n arbitrary: y_index)
  case 0
  then show ?case by simp
next
  case (Suc n)
  have "set (reset_columns (Suc n) y_index start end) =
      (\<lambda>i. y_index + wrap_x i) ` {start..<end} \<union>
      {y_index + 101 + int j * 101 + wrap_x i | j i. j < n \<and> start \<le> i \<and> i < end}"
    by (simp add: reset_columns_in_row_set Suc.IH pixel_constants)
  also have "\<dots> = {y_index + int j * 101 + wrap_x i | j i. j < Suc n \<and> start \<le> i \<and> i < end}"
    (is "?A \<union> ?B = ?C")
  proof (intro set_eqI iffI)
    fix k assume "k \<in> ?A \<union> ?B"
    then show "k \<in> ?C"
    proof
      assume "k \<in> ?A"
      then obtain i where "k = y_index + int 0 * 101 + wrap_x i" "start \<le> i" "i < end" by auto
      then show ?thesis by blast
    next
      assume "k \<in> ?B"
      then obtain j i where "k = y_index + int (Suc j) * 101 + wrap_x i" "j < n" "start \<le> i" "i < end"
        by auto
      then show ?thesis by (metis (mono_tags, lifting) Suc_less_eq mem_Collect_eq)
    qed
  next
    fix k assume "k \<in> ?C"
    then obtain j i where k: "k = y_index + int j * 101 + wrap_x i" "j < Suc n" "start \<le> i" "i < end"
      by auto
    show "k \<in> ?A \<union> ?B"
    proof (cases j)
      case 0
      with k show ?thesis by auto
    next
      case (Suc j')
      with k have "k = y_index + 101 + int j' * 101 + wrap_x i" "j' < n" by auto
      with k show ?thesis by blast
    qed
  qed
  finally show ?case .
qed

lemma reset_rows_mem:
  "k \<in> set (reset_rows start end) \<longleftrightarrow>
     (\<exists>j. start \<le> j \<and> j < end \<and> wrap_x j * 101 \<le> k \<and> k \<le> wrap_x j * 101 + 100)"
proof -
  have "k \<in> set (reset_rows start end) \<longleftrightarrow>
      (\<exists>j\<in>{start..end - 1}. k \<in> (\<lambda>i. wrap_x j * 101 + i) ` {0..100})"
    by (simp add: reset_rows_def wrap_x_def pixel_constants Let_def del: image_add_atLeastAtMost)
  also have "\<dots> \<longleftrightarrow> (\<exists>j. start \<le> j \<and> j < end \<and> wrap_x j * 101 \<le> k \<and> k \<le> wrap_x j * 101 + 100)"
    by (auto simp: Bex_def)
  finally show ?thesis .
qed

lemma cell_index_y:
  fixes x y w j :: int
  assumes "0 \<le> x" "x \<le> 100" "0 \<le> w" "w \<le> 100" "y * 101 + x = j * 101 + w"
  shows "y = j"
proof (rule ccontr)
  assume "y \<noteq> j"
  then consider "y + 1 \<le> j" | "j + 1 \<le> y" by linarith
  then show False using assms by cases linarith+
qed

lemma cell_index_unique:
  fixes x y w j :: int
  assumes "0 \<le> x" "x \<le> 100" "0 \<le> w" "w \<le> 100"
  shows "y * 101 + x = j * 101 + w \<longleftrightarrow> y = j \<and> x = w"
proof
  assume e: "y * 101 + x = j * 101 + w"
  with assms have "y = j" by (rule cell_index_y)
  with e show "y = j \<and> x = w" by simp
qed simp

lemma cell_index_between:
  fixes x y w k :: int
  assumes "0 \<le> x" "x \<le> 100" "w * 101 \<le> y * 101 + x" "y * 101 + x \<le> w * 101 + 100"
  shows "w = y"
proof (rule ccontr)
  assume "w \<noteq> y"
  then consider "y + 1 \<le> w" | "w + 1 \<le> y" by linarith
  then show False using assms by cases linarith+
qed

lemma wrap_x_range: "- 101 \<le> c \<Longrightarrow> c \<le> 201 \<Longrightarrow> 0 \<le> wrap_x c \<and> wrap_x c \<le> 100"
  by (simp add: wrap_x_cases)

lemma columns_mem:
  assumes safe: "\<And>i. start \<le> i \<Longrightarrow> i < end \<Longrightarrow> - 101 \<le> i \<and> i \<le> 201"
    and xy: "0 \<le> x" "x \<le> 100" "0 \<le> y" "y \<le> 100"
  shows "y * 101 + x \<in> set (reset_columns 101 0 start end) \<longleftrightarrow>
           (\<exists>i. start \<le> i \<and> i < end \<and> wrap_x i = x)"
proof
  assume "y * 101 + x \<in> set (reset_columns 101 0 start end)"
  then obtain j i where ji: "y * 101 + x = int j * 101 + wrap_x i" "start \<le> i" "i < end"
    by (auto simp: reset_columns_set)
  then have "0 \<le> wrap_x i \<and> wrap_x i \<le> 100" using safe wrap_x_range by blast
  with ji(1) xy have "x = wrap_x i" by (simp add: cell_index_unique)
  with ji show "\<exists>i. start \<le> i \<and> i < end \<and> wrap_x i = x" by blast
next
  assume "\<exists>i. start \<le> i \<and> i < end \<and> wrap_x i = x"
  then obtain i where i: "start \<le> i" "i < end" "wrap_x i = x" by blast
  have "y * 101 + x = 0 + int (nat y) * 101 + wrap_x i" "nat y < 101"
    using xy i by simp_all
  with i show "y * 101 + x \<in> set (reset_columns 101 0 start end)"
    unfolding reset_columns_set by blast
qed

lemma columns_in_bounds:
  assumes safe: "\<And>i. start \<le> i \<Longrightarrow> i < end \<Longrightarrow> - 101 \<le> i \<and> i \<le> 201"
    and k: "k \<in> set (reset_columns 101 0 start end)"
  shows "0 \<le> k \<and> k < 10201"
proof -
  from k obtain j i where ji: "k = int j * 101 + wrap_x i" "j < 101" "start \<le> i" "i < end"
    by (auto simp: reset_columns_set)
  then have "0 \<le> wrap_x i \<and> wrap_x i \<le> 100" using safe wrap_x_range by blast
  with ji show ?thesis by simp
qed

lemma rows_mem:
  assumes safe: "\<And>j. start \<le> j \<Longrightarrow> j < end \<Longrightarrow> - 101 \<le> j \<and> j \<le> 201"
    and xy: "0 \<le> x" "x \<le> 100" "0 \<le> y" "y \<le> 100"
  shows "y * 101 + x \<in> set (reset_rows start end) \<longleftrightarrow>
           (\<exists>j. start \<le> j \<and> j < end \<and> wrap_x j = y)"
proof
  assume "y * 101 + x \<in> set (reset_rows start end)"
  then obtain j where j: "start \<le> j" "j < end" "wrap_x j * 101 \<le> y * 101 + x"
      "y * 101 + x \<le> wrap_x j * 101 + 100"
    by (auto simp: reset_rows_mem)
  with xy have "wrap_x j = y" by (simp add: cell_index_between)
  with j show "\<exists>j. start \<le> j \<and> j < end \<and> wrap_x j = y" by blast
next
  assume "\<exists>j. start \<le> j \<and> j < end \<and> wrap_x j = y"
  then show "y * 101 + x \<in> set (reset_rows start end)"
    using xy by (auto simp: reset_rows_mem)
qed

lemma rows_in_bounds:
  assumes safe: "\<And>j. start \<le> j \<Longrightarrow> j < end \<Longrightarrow> - 101 \<le> j \<and> j \<le> 201"
    and k: "k \<in> set (reset_rows start end)"
  shows "0 \<le> k \<and> k < 10201"
proof -
  from k obtain j where j: "start \<le> j" "j < end" "wrap_x j * 101 \<le> k" "k \<le> wrap_x j * 101 + 100"
    by (auto simp: reset_rows_mem)
  then have "0 \<le> wrap_x j \<and> wrap_x j \<le> 100" using safe wrap_x_range by blast
  with j show ?thesis by linarith
qed

section \<open>The translation, pass by pass\<close>

lemma translate_unfold:
  "app_slam_private_translateGlobalMap dx dy s = Inr s' \<longleftrightarrow>
     (\<exists>d1 d2.
        reset_vertical_columns dx (coord_x (map_center_pixel s) - 50) (data s) = Inr d1
      \<and> reset_horizontal_rows dy (coord_y (map_center_pixel s) - 50) d1 = Inr d2
      \<and> s' = s \<lparr> data := d2,
                  map_center_pixel := \<lparr> coord_x = wrap_x (coord_x (map_center_pixel s) + dx),
                                          coord_y = wrap_x (coord_y (map_center_pixel s) + dy) \<rparr> \<rparr>)"
  unfolding app_slam_private_translateGlobalMap_def Let_def wrap_x_def pixel_constants
  by (auto split: sum.splits)

lemma reset_vertical_columns_eq:
  "reset_vertical_columns dx x00 m =
     (if dx = 0 then Inr m
      else mstores m (reset_columns 101 0 (band_start x00 dx) (band_end x00 dx)) 0)"
  by (simp add: reset_vertical_columns_def pixel_constants GRID_CELL_NEUTRAL_def)

lemma reset_horizontal_rows_eq:
  "reset_horizontal_rows dy y00 m =
     (if dy = 0 then Inr m
      else mstores m (reset_rows (band_start y00 dy) (band_end y00 dy)) 0)"
  by (simp add: reset_horizontal_rows_def pixel_constants GRID_CELL_NEUTRAL_def)

lemma band_empty: "band_start c 0 = c" "band_end c 0 = c"
  by (simp_all add: band_start_def band_end_def)

lemma cell_index_bounds:
  fixes x y :: int
  assumes "0 \<le> x" "x \<le> 100" "0 \<le> y" "y \<le> 100"
  shows "0 \<le> y * 101 + x" "y * 101 + x < 10201" "nat (y * 101 + x) < 10201"
  using assms by simp_all

lemma reset_vertical_columns_safe:
  assumes len: "length m = 10201"
    and safe: "\<And>i. band_start x00 dx \<le> i \<Longrightarrow> i < band_end x00 dx \<Longrightarrow> - 101 \<le> i \<and> i \<le> 201"
  shows "\<exists>d. reset_vertical_columns dx x00 m = Inr d \<and> length d = 10201 \<and>
    (\<forall>x y. 0 \<le> x \<and> x \<le> 100 \<and> 0 \<le> y \<and> y \<le> 100 \<longrightarrow>
       d ! nat (y * 101 + x) =
         (if \<exists>i. band_start x00 dx \<le> i \<and> i < band_end x00 dx \<and> wrap_x i = x
          then 0 else m ! nat (y * 101 + x)))"
proof (cases "dx = 0")
  case True
  then show ?thesis using len by (auto simp add: reset_vertical_columns_eq band_empty)
next
  case False
  let ?ks = "reset_columns 101 0 (band_start x00 dx) (band_end x00 dx)"
  have "\<exists>d. mstores m ?ks 0 = Inr d"
  proof (rule mstores_total)
    fix k assume "k \<in> set ?ks"
    with safe have "0 \<le> k \<and> k < 10201" by (rule columns_in_bounds)
    then show "0 \<le> k \<and> k < int (length m)" using len by simp
  qed
  then obtain d where d: "mstores m ?ks 0 = Inr d" ..
  have "length d = 10201" using mstores_length [OF d] len by simp
  moreover have "d ! nat (y * 101 + x) =
         (if \<exists>i. band_start x00 dx \<le> i \<and> i < band_end x00 dx \<and> wrap_x i = x
          then 0 else m ! nat (y * 101 + x))"
    if xy: "0 \<le> x \<and> x \<le> 100 \<and> 0 \<le> y \<and> y \<le> 100" for x y
  proof -
    have n: "nat (y * 101 + x) < length m" "int (nat (y * 101 + x)) = y * 101 + x"
      using xy len cell_index_bounds [of x y] by simp_all
    have "y * 101 + x \<in> set ?ks \<longleftrightarrow>
        (\<exists>i. band_start x00 dx \<le> i \<and> i < band_end x00 dx \<and> wrap_x i = x)"
      using safe xy by (intro columns_mem) simp_all
    with mstores_nth [OF d n(1)] n(2) show ?thesis by simp
  qed
  ultimately show ?thesis using False d by (simp add: reset_vertical_columns_eq)
qed

lemma reset_horizontal_rows_safe:
  assumes len: "length m = 10201"
    and safe: "\<And>j. band_start y00 dy \<le> j \<Longrightarrow> j < band_end y00 dy \<Longrightarrow> - 101 \<le> j \<and> j \<le> 201"
  shows "\<exists>d. reset_horizontal_rows dy y00 m = Inr d \<and> length d = 10201 \<and>
    (\<forall>x y. 0 \<le> x \<and> x \<le> 100 \<and> 0 \<le> y \<and> y \<le> 100 \<longrightarrow>
       d ! nat (y * 101 + x) =
         (if \<exists>j. band_start y00 dy \<le> j \<and> j < band_end y00 dy \<and> wrap_x j = y
          then 0 else m ! nat (y * 101 + x)))"
proof (cases "dy = 0")
  case True
  then show ?thesis using len by (auto simp add: reset_horizontal_rows_eq band_empty)
next
  case False
  let ?ks = "reset_rows (band_start y00 dy) (band_end y00 dy)"
  have "\<exists>d. mstores m ?ks 0 = Inr d"
  proof (rule mstores_total)
    fix k assume "k \<in> set ?ks"
    with safe have "0 \<le> k \<and> k < 10201" by (rule rows_in_bounds)
    then show "0 \<le> k \<and> k < int (length m)" using len by simp
  qed
  then obtain d where d: "mstores m ?ks 0 = Inr d" ..
  have "length d = 10201" using mstores_length [OF d] len by simp
  moreover have "d ! nat (y * 101 + x) =
         (if \<exists>j. band_start y00 dy \<le> j \<and> j < band_end y00 dy \<and> wrap_x j = y
          then 0 else m ! nat (y * 101 + x))"
    if xy: "0 \<le> x \<and> x \<le> 100 \<and> 0 \<le> y \<and> y \<le> 100" for x y
  proof -
    have n: "nat (y * 101 + x) < length m" "int (nat (y * 101 + x)) = y * 101 + x"
      using xy len cell_index_bounds [of x y] by simp_all
    have "y * 101 + x \<in> set ?ks \<longleftrightarrow>
        (\<exists>j. band_start y00 dy \<le> j \<and> j < band_end y00 dy \<and> wrap_x j = y)"
      using safe xy by (intro rows_mem) simp_all
    with mstores_nth [OF d n(1)] n(2) show ?thesis by simp
  qed
  ultimately show ?thesis using False d by (simp add: reset_horizontal_rows_eq)
qed

lemma in_band_iff:
  "in_band c00 d c \<longleftrightarrow> (\<exists>i. band_start c00 d \<le> i \<and> i < band_end c00 d \<and> wrap_x i = c)"
  by (auto simp: in_band_def)

lemma translate_safe:
  assumes len: "length (data s) = 10201"
    and sx: "\<And>i. band_start (coord_x (map_center_pixel s) - 50) dx \<le> i \<Longrightarrow>
               i < band_end (coord_x (map_center_pixel s) - 50) dx \<Longrightarrow> - 101 \<le> i \<and> i \<le> 201"
    and sy: "\<And>j. band_start (coord_y (map_center_pixel s) - 50) dy \<le> j \<Longrightarrow>
               j < band_end (coord_y (map_center_pixel s) - 50) dy \<Longrightarrow> - 101 \<le> j \<and> j \<le> 201"
  shows "\<exists>s'. app_slam_private_translateGlobalMap dx dy s = Inr s' \<and> length (data s') = 10201
    \<and> map_offset_mm s' = map_offset_mm s
    \<and> coord_x (map_center_pixel s') = wrap_x (coord_x (map_center_pixel s) + dx)
    \<and> coord_y (map_center_pixel s') = wrap_x (coord_y (map_center_pixel s) + dy)
    \<and> (\<forall>x y. 0 \<le> x \<and> x \<le> 100 \<and> 0 \<le> y \<and> y \<le> 100 \<longrightarrow>
         data s' ! nat (y * 101 + x) =
           (if in_band (coord_x (map_center_pixel s) - 50) dx x
               \<or> in_band (coord_y (map_center_pixel s) - 50) dy y
            then 0 else data s ! nat (y * 101 + x)))"
proof -
  from reset_vertical_columns_safe [OF len sx] obtain d1 where
    d1: "reset_vertical_columns dx (coord_x (map_center_pixel s) - 50) (data s) = Inr d1"
    and len1: "length d1 = 10201"
    and nth1: "\<And>x y. 0 \<le> x \<and> x \<le> 100 \<and> 0 \<le> y \<and> y \<le> 100 \<Longrightarrow>
       d1 ! nat (y * 101 + x) =
         (if in_band (coord_x (map_center_pixel s) - 50) dx x then 0 else data s ! nat (y * 101 + x))"
    unfolding in_band_iff by blast
  from reset_horizontal_rows_safe [OF len1 sy] obtain d2 where
    d2: "reset_horizontal_rows dy (coord_y (map_center_pixel s) - 50) d1 = Inr d2"
    and len2: "length d2 = 10201"
    and nth2: "\<And>x y. 0 \<le> x \<and> x \<le> 100 \<and> 0 \<le> y \<and> y \<le> 100 \<Longrightarrow>
       d2 ! nat (y * 101 + x) =
         (if in_band (coord_y (map_center_pixel s) - 50) dy y then 0 else d1 ! nat (y * 101 + x))"
    unfolding in_band_iff by blast
  let ?s' = "s \<lparr> data := d2,
                  map_center_pixel := \<lparr> coord_x = wrap_x (coord_x (map_center_pixel s) + dx),
                                          coord_y = wrap_x (coord_y (map_center_pixel s) + dy) \<rparr> \<rparr>"
  have "app_slam_private_translateGlobalMap dx dy s = Inr ?s'"
    unfolding translate_unfold using d1 d2 by blast
  moreover have "data ?s' ! nat (y * 101 + x) =
           (if in_band (coord_x (map_center_pixel s) - 50) dx x
               \<or> in_band (coord_y (map_center_pixel s) - 50) dy y
            then 0 else data s ! nat (y * 101 + x))"
    if "0 \<le> x \<and> x \<le> 100 \<and> 0 \<le> y \<and> y \<le> 100" for x y
    using nth1 [OF that] nth2 [OF that] by simp
  ultimately show ?thesis using len2 by (intro exI [of _ ?s']) simp
qed

section \<open>The vehicle region\<close>

lemma vehicle_region_mem:
  "k \<in> set (vehicle_region mc) \<longleftrightarrow>
     (\<exists>j i. 0 \<le> j \<and> j \<le> 10 \<and> PADDING ! nat j \<le> i \<and> i \<le> 10 - PADDING ! nat j
        \<and> k = wrap_x (coord_y mc - 5 + j) * 101 + wrap_x (coord_x mc - 5 + i))"
proof -
  have "k \<in> set (vehicle_region mc) \<longleftrightarrow>
     (\<exists>j\<in>{0..10}. \<exists>i\<in>{PADDING ! nat j..10 - PADDING ! nat j}.
         k = wrap_x (coord_y mc - 5 + j) * 101 + wrap_x (coord_x mc - 5 + i))"
    unfolding vehicle_region_def Let_def wrap_x_def pixel_constants
    by auto
  also have "\<dots> \<longleftrightarrow> (\<exists>j i. 0 \<le> j \<and> j \<le> 10 \<and> PADDING ! nat j \<le> i \<and> i \<le> 10 - PADDING ! nat j
        \<and> k = wrap_x (coord_y mc - 5 + j) * 101 + wrap_x (coord_x mc - 5 + i))"
    unfolding Bex_def atLeastAtMost_iff by blast
  finally show ?thesis .
qed

lemma PADDING_length: "length PADDING = 11"
  by (simp add: PADDING_def)

lemma PADDING_symmetric: "n \<le> 10 \<Longrightarrow> PADDING ! (10 - n) = PADDING ! n"
proof -
  assume n: "n \<le> 10"
  have "rev PADDING = PADDING" by (simp add: PADDING_def)
  moreover have "rev PADDING ! n = PADDING ! (length PADDING - Suc n)"
    by (rule rev_nth) (use n in \<open>simp add: PADDING_length\<close>)
  ultimately show ?thesis by (simp add: PADDING_length)
qed

lemma PADDING_range: "n \<le> 10 \<Longrightarrow> 0 \<le> PADDING ! n \<and> PADDING ! n \<le> 4"
proof -
  assume n: "n \<le> 10"
  have "\<forall>p \<in> set PADDING. 0 \<le> p \<and> p \<le> 4" by (simp add: PADDING_def)
  moreover have "PADDING ! n \<in> set PADDING"
    by (rule nth_mem) (use n in \<open>simp add: PADDING_length\<close>)
  ultimately show ?thesis by blast
qed

lemma vehicle_region_in_bounds:
  assumes c: "- 96 \<le> coord_x mc" "coord_x mc \<le> 196" "- 96 \<le> coord_y mc" "coord_y mc \<le> 196"
    and k: "k \<in> set (vehicle_region mc)"
  shows "0 \<le> k \<and> k < 10201"
proof -
  from k obtain j i where ji: "0 \<le> j" "j \<le> 10" "PADDING ! nat j \<le> i" "i \<le> 10 - PADDING ! nat j"
    "k = wrap_x (coord_y mc - 5 + j) * 101 + wrap_x (coord_x mc - 5 + i)"
    unfolding vehicle_region_mem by blast
  have "nat j \<le> 10" using ji by simp
  from PADDING_range [OF this] ji have i: "0 \<le> i" "i \<le> 10" by simp_all
  have "0 \<le> wrap_x (coord_y mc - 5 + j) \<and> wrap_x (coord_y mc - 5 + j) \<le> 100"
    using c ji by (intro wrap_x_range) simp_all
  moreover have "0 \<le> wrap_x (coord_x mc - 5 + i) \<and> wrap_x (coord_x mc - 5 + i) \<le> 100"
    using c i by (intro wrap_x_range) simp_all
  ultimately show ?thesis using ji(5) by simp
qed

lemma clearVehicleRegion_unfold:
  "app_slam_private_clearVehicleRegion s = Inr s' \<longleftrightarrow>
     (\<exists>d. mstores (data s) (vehicle_region (map_center_pixel s)) GRID_CELL_VISITED = Inr d
        \<and> s' = s \<lparr> data := d \<rparr>)"
  by (auto simp: app_slam_private_clearVehicleRegion_def split: sum.splits)

lemma clearVehicleRegion_total:
  assumes len: "length (data s) = 10201"
    and c: "- 96 \<le> coord_x (map_center_pixel s)" "coord_x (map_center_pixel s) \<le> 196"
      "- 96 \<le> coord_y (map_center_pixel s)" "coord_y (map_center_pixel s) \<le> 196"
  shows "\<exists>d. app_slam_private_clearVehicleRegion s = Inr (s \<lparr> data := d \<rparr>) \<and> length d = 10201
    \<and> (\<forall>n < 10201. d ! n =
          (if int n \<in> set (vehicle_region (map_center_pixel s)) then GRID_CELL_VISITED
           else data s ! n))"
proof -
  have "\<exists>d. mstores (data s) (vehicle_region (map_center_pixel s)) GRID_CELL_VISITED = Inr d"
  proof (rule mstores_total)
    fix k assume "k \<in> set (vehicle_region (map_center_pixel s))"
    with c have "0 \<le> k \<and> k < 10201" by (rule vehicle_region_in_bounds)
    then show "0 \<le> k \<and> k < int (length (data s))" using len by simp
  qed
  then obtain d where d: "mstores (data s) (vehicle_region (map_center_pixel s)) GRID_CELL_VISITED = Inr d" ..
  have "length d = 10201" using mstores_length [OF d] len by simp
  moreover have "\<forall>n < 10201. d ! n =
          (if int n \<in> set (vehicle_region (map_center_pixel s)) then GRID_CELL_VISITED
           else data s ! n)"
    using mstores_nth [OF d] len by simp
  moreover have "app_slam_private_clearVehicleRegion s = Inr (s \<lparr> data := d \<rparr>)"
    unfolding clearVehicleRegion_unfold using d by blast
  ultimately show ?thesis by blast
qed

lemma mstores_set: "mstores m ks v = Inr m' \<Longrightarrow> set m' \<subseteq> insert v (set m)"
proof
  fix c assume m': "mstores m ks v = Inr m'" and "c \<in> set m'"
  then obtain n where n: "n < length m'" "c = m' ! n" by (auto simp: in_set_conv_nth)
  with mstores_length [OF m'] have "n < length m" by simp
  from mstores_nth [OF m' this] n \<open>n < length m\<close> show "c \<in> insert v (set m)"
    by (auto split: if_splits)
qed

lemma translate_Inr_D:
  assumes "app_slam_private_translateGlobalMap dx dy s = Inr s'"
  shows "length (data s') = length (data s)"
    and "set (data s') \<subseteq> insert GRID_CELL_NEUTRAL (set (data s))"
    and "coord_x (map_center_pixel s') = wrap_x (coord_x (map_center_pixel s) + dx)"
    and "coord_y (map_center_pixel s') = wrap_x (coord_y (map_center_pixel s) + dy)"
    and "map_offset_mm s' = map_offset_mm s"
proof -
  from assms obtain d1 d2 where
    d1: "reset_vertical_columns dx (coord_x (map_center_pixel s) - 50) (data s) = Inr d1"
    and d2: "reset_horizontal_rows dy (coord_y (map_center_pixel s) - 50) d1 = Inr d2"
    and s': "s' = s \<lparr> data := d2,
                  map_center_pixel := \<lparr> coord_x = wrap_x (coord_x (map_center_pixel s) + dx),
                                          coord_y = wrap_x (coord_y (map_center_pixel s) + dy) \<rparr> \<rparr>"
    unfolding translate_unfold by blast
  have 1: "length d1 = length (data s) \<and> set d1 \<subseteq> insert 0 (set (data s))"
    using d1 by (auto simp: reset_vertical_columns_eq split: if_splits
        dest: mstores_length mstores_set)
  have 2: "length d2 = length d1 \<and> set d2 \<subseteq> insert 0 (set d1)"
    using d2 by (auto simp: reset_horizontal_rows_eq split: if_splits
        dest: mstores_length mstores_set)
  show "length (data s') = length (data s)" using 1 2 s' by simp
  show "set (data s') \<subseteq> insert GRID_CELL_NEUTRAL (set (data s))"
    using 1 2 s' by (auto simp: GRID_CELL_NEUTRAL_def)
  show "coord_x (map_center_pixel s') = wrap_x (coord_x (map_center_pixel s) + dx)"
    "coord_y (map_center_pixel s') = wrap_x (coord_y (map_center_pixel s) + dy)"
    "map_offset_mm s' = map_offset_mm s"
    using s' by simp_all
qed

lemma clearVehicleRegion_Inr_D:
  assumes "app_slam_private_clearVehicleRegion s = Inr s'"
  shows "length (data s') = length (data s)"
    and "set (data s') \<subseteq> insert GRID_CELL_VISITED (set (data s))"
    and "map_center_pixel s' = map_center_pixel s"
    and "map_offset_mm s' = map_offset_mm s"
proof -
  from assms obtain d where
    d: "mstores (data s) (vehicle_region (map_center_pixel s)) GRID_CELL_VISITED = Inr d"
    and s': "s' = s \<lparr> data := d \<rparr>"
    unfolding clearVehicleRegion_unfold by blast
  show "length (data s') = length (data s)" using mstores_length [OF d] s' by simp
  show "set (data s') \<subseteq> insert GRID_CELL_VISITED (set (data s))"
    using mstores_set [OF d] s' by simp
  show "map_center_pixel s' = map_center_pixel s" "map_offset_mm s' = map_offset_mm s"
    using s' by simp_all
qed

section \<open>Binary32 rounding\<close>

lemma round_half_even_of_int: "round_half_even (real_of_int N) = N"
  by (simp add: round_half_even_def)

lemma round_half_even_le: "y \<le> real_of_int N \<Longrightarrow> round_half_even y \<le> N"
proof -
  assume y: "y \<le> real_of_int N"
  then have f: "\<lfloor>y\<rfloor> \<le> N" by (simp add: floor_le_iff)
  show ?thesis
  proof (cases "\<lfloor>y\<rfloor> = N")
    case True
    then have "y - real_of_int \<lfloor>y\<rfloor> \<le> 0" using y by simp
    then show ?thesis using True by (simp add: round_half_even_def Let_def)
  next
    case False
    with f have "\<lfloor>y\<rfloor> + 1 \<le> N" by simp
    then show ?thesis by (auto simp: round_half_even_def Let_def)
  qed
qed

lemma round_half_even_ge: "real_of_int N \<le> y \<Longrightarrow> N \<le> round_half_even y"
proof -
  assume "real_of_int N \<le> y"
  then have "N \<le> \<lfloor>y\<rfloor>" by (simp add: le_floor_iff)
  then show ?thesis by (auto simp: round_half_even_def Let_def)
qed

lemma round_half_even_minus: "round_half_even (- y) = - round_half_even y"
proof (cases "y = real_of_int \<lfloor>y\<rfloor>")
  case True
  then obtain N where "y = real_of_int N" ..
  then have "- y = real_of_int (- N)" by simp
  then show ?thesis using \<open>y = real_of_int N\<close> by (simp only: round_half_even_of_int)
next
  case False
  moreover have "real_of_int \<lfloor>y\<rfloor> \<le> y" "y < real_of_int \<lfloor>y\<rfloor> + 1" by linarith+
  ultimately have "real_of_int \<lfloor>y\<rfloor> < y" "y < real_of_int \<lfloor>y\<rfloor> + 1" by linarith+
  moreover have "real_of_int (- \<lfloor>y\<rfloor> - 1) = - real_of_int \<lfloor>y\<rfloor> - 1" by simp
  ultimately have "real_of_int (- \<lfloor>y\<rfloor> - 1) \<le> - y" "- y < real_of_int (- \<lfloor>y\<rfloor> - 1) + 1"
    by linarith+
  then have fl: "\<lfloor>- y\<rfloor> = - \<lfloor>y\<rfloor> - 1" by (rule floor_unique)
  let ?d = "y - real_of_int \<lfloor>y\<rfloor>"
  have d': "- y - real_of_int \<lfloor>- y\<rfloor> = 1 - ?d" unfolding fl by simp
  have par: "even (- \<lfloor>y\<rfloor> - 1) \<longleftrightarrow> odd \<lfloor>y\<rfloor>" by simp
  show ?thesis
    unfolding round_half_even_def Let_def d' unfolding fl par
    by (auto simp: field_simps)
qed

lemma binary32_exponent_minus: "binary32_exponent (- x) = binary32_exponent x"
  by (simp add: binary32_exponent_def)

lemma binary32_minus: "binary32 (- x) = - binary32 x"
  by (simp add: binary32_def binary32_exponent_minus round_half_even_minus)

lemma two_powi_pos: "0 < (2::real) powi n"
  by simp

lemma two_powi_le_iff: "(2::real) powi m \<le> 2 powi n \<longleftrightarrow> m \<le> n"
proof
  assume le: "(2::real) powi m \<le> 2 powi n"
  show "m \<le> n"
  proof (rule ccontr)
    assume "\<not> m \<le> n"
    then have "n < m" by simp
    then have "(2::real) powi n < 2 powi m" by (intro power_int_strict_increasing) simp_all
    with le show False by simp
  qed
next
  assume "m \<le> n"
  then show "(2::real) powi m \<le> 2 powi n" by (intro power_int_increasing) simp_all
qed

lemma two_powi_less_iff: "(2::real) powi m < 2 powi n \<longleftrightarrow> m < n"
  using two_powi_le_iff [of n m] by (simp add: not_le [symmetric])

lemma floor_log2_bounds:
  assumes "x \<noteq> 0"
  shows "2 powi \<lfloor>log 2 \<bar>x\<bar>\<rfloor> \<le> \<bar>x\<bar>" and "\<bar>x\<bar> < 2 powi (\<lfloor>log 2 \<bar>x\<bar>\<rfloor> + 1)"
proof -
  let ?k = "\<lfloor>log 2 \<bar>x\<bar>\<rfloor>"
  have pos: "0 < \<bar>x\<bar>" using assms by simp
  have b: "2 powr real_of_int ?k \<le> \<bar>x\<bar> \<and> \<bar>x\<bar> < 2 powr (real_of_int ?k + 1)"
    using floor_log_eq_powr_iff [OF pos, of 2 ?k] by simp
  have p: "(2::real) powr real_of_int n = 2 powi n" for n
    by (rule powr_real_of_int') simp_all
  have "real_of_int ?k + 1 = real_of_int (?k + 1)" by simp
  then have "(2::real) powr (real_of_int ?k + 1) = 2 powi (?k + 1)"
    by (simp only: p)
  with b p [of ?k] show "2 powi ?k \<le> \<bar>x\<bar>" and "\<bar>x\<bar> < 2 powi (?k + 1)"
    by simp_all
qed

lemma floor_log2_less:
  assumes "x \<noteq> 0" and "\<bar>x\<bar> < 2 powi n"
  shows "\<lfloor>log 2 \<bar>x\<bar>\<rfloor> < n"
proof -
  have "2 powi \<lfloor>log 2 \<bar>x\<bar>\<rfloor> < (2::real) powi n"
    using floor_log2_bounds(1) [OF assms(1)] assms(2) by linarith
  then show ?thesis by (simp only: two_powi_less_iff)
qed

lemma floor_log2_ge:
  assumes "x \<noteq> 0" and "2 powi n \<le> \<bar>x\<bar>"
  shows "n \<le> \<lfloor>log 2 \<bar>x\<bar>\<rfloor>"
proof -
  have "(2::real) powi n < 2 powi (\<lfloor>log 2 \<bar>x\<bar>\<rfloor> + 1)"
    using floor_log2_bounds(2) [OF assms(1)] assms(2) by linarith
  then have "n < \<lfloor>log 2 \<bar>x\<bar>\<rfloor> + 1" by (simp only: two_powi_less_iff)
  then show ?thesis by simp
qed

lemma two_powi_nat: "0 \<le> k \<Longrightarrow> (2::real) powi k = real_of_int (2 ^ nat k)"
  by (simp add: power_int_def)

lemma two_powi_neg: "0 \<le> k \<Longrightarrow> (2::real) powi (- k) = 1 / real_of_int (2 ^ nat k)"
  by (simp add: power_int_minus power_int_def field_simps)

lemma bitlen_pos: "0 < n \<Longrightarrow> 1 \<le> bitlen n"
  by (simp add: bitlen_alt_def)

lemma floor_log2_large:
  assumes "1 \<le> \<bar>x\<bar>"
  shows "bitlen \<lfloor>\<bar>x\<bar>\<rfloor> - 1 = \<lfloor>log 2 \<bar>x\<bar>\<rfloor>"
proof -
  define n where "n = \<lfloor>\<bar>x\<bar>\<rfloor>"
  define b where "b = bitlen n"
  have nz: "x \<noteq> 0" using assms by auto
  have n: "0 < n" using assms by (simp add: n_def)
  have b: "1 \<le> b" unfolding b_def by (rule bitlen_pos [OF n])
  have nx: "real_of_int n \<le> \<bar>x\<bar>" "\<bar>x\<bar> < real_of_int (n + 1)"
    unfolding n_def by linarith+
  from bitlen_bounds [OF n] have B: "2 ^ nat (b - 1) \<le> n" "n + 1 \<le> 2 ^ nat b"
    unfolding b_def by simp_all
  have "(2::real) powi (b - 1) = real_of_int (2 ^ nat (b - 1))"
    using b by (intro two_powi_nat) simp
  also have "\<dots> \<le> real_of_int n" using B(1) by (simp only: of_int_le_iff)
  finally have lo: "2 powi (b - 1) \<le> \<bar>x\<bar>" using nx(1) by linarith
  have "real_of_int (n + 1) \<le> real_of_int (2 ^ nat b)" using B(2) by (simp only: of_int_le_iff)
  also have "\<dots> = 2 powi b" using b by (intro two_powi_nat [symmetric]) simp
  finally have hi: "\<bar>x\<bar> < 2 powi b" using nx(2) by linarith
  have "b - 1 \<le> \<lfloor>log 2 \<bar>x\<bar>\<rfloor>" by (rule floor_log2_ge [OF nz lo])
  moreover have "\<lfloor>log 2 \<bar>x\<bar>\<rfloor> < b" by (rule floor_log2_less [OF nz hi])
  ultimately show ?thesis unfolding b_def n_def by linarith
qed

lemma floor_log2_small:
  assumes "x \<noteq> 0" and "\<bar>x\<bar> < 1"
  shows "- bitlen (\<lceil>1 / \<bar>x\<bar>\<rceil> - 1) = \<lfloor>log 2 \<bar>x\<bar>\<rfloor>"
proof -
  define y where "y = 1 / \<bar>x\<bar>"
  define n where "n = \<lceil>y\<rceil> - 1"
  define b where "b = bitlen n"
  have pos: "0 < \<bar>x\<bar>" using assms(1) by simp
  have y: "1 < y" using assms(2) pos by (simp add: y_def)
  have ny: "real_of_int n < y" "y \<le> real_of_int (n + 1)"
    unfolding n_def by linarith+
  have n: "0 < n" using y ny(2) by linarith
  have b: "1 \<le> b" unfolding b_def by (rule bitlen_pos [OF n])
  from bitlen_bounds [OF n] have B: "2 ^ nat (b - 1) \<le> n" "n + 1 \<le> 2 ^ nat b"
    unfolding b_def by simp_all
  have p: "0 < real_of_int (2 ^ nat (b - 1))" "0 < real_of_int (2 ^ nat b)" by simp_all
  have "real_of_int (2 ^ nat (b - 1)) \<le> real_of_int n" using B(1) by (simp only: of_int_le_iff)
  then have "real_of_int (2 ^ nat (b - 1)) < y" using ny(1) by linarith
  then have "real_of_int (2 ^ nat (b - 1)) * \<bar>x\<bar> < 1"
    using pos by (simp add: y_def field_simps)
  then have "\<bar>x\<bar> < 1 / real_of_int (2 ^ nat (b - 1))"
    using p(1) by (simp add: field_simps)
  also have "\<dots> = 2 powi (- (b - 1))"
    using b by (intro two_powi_neg [symmetric]) simp
  finally have hi: "\<bar>x\<bar> < 2 powi (- b + 1)" by simp
  have "real_of_int (n + 1) \<le> real_of_int (2 ^ nat b)" using B(2) by (simp only: of_int_le_iff)
  then have "y \<le> real_of_int (2 ^ nat b)" using ny(2) by linarith
  then have "1 \<le> real_of_int (2 ^ nat b) * \<bar>x\<bar>"
    using pos by (simp add: y_def field_simps)
  then have "1 / real_of_int (2 ^ nat b) \<le> \<bar>x\<bar>"
    using p(2) by (simp add: field_simps)
  moreover have "(2::real) powi (- b) = 1 / real_of_int (2 ^ nat b)"
    using b by (intro two_powi_neg) simp
  ultimately have lo: "2 powi (- b) \<le> \<bar>x\<bar>" by simp
  have "- b \<le> \<lfloor>log 2 \<bar>x\<bar>\<rfloor>" by (rule floor_log2_ge [OF assms(1) lo])
  moreover have "\<lfloor>log 2 \<bar>x\<bar>\<rfloor> < - b + 1" by (rule floor_log2_less [OF assms(1) hi])
  ultimately show ?thesis unfolding b_def n_def y_def by linarith
qed

lemma binary32_exponent_log:
  "x \<noteq> 0 \<Longrightarrow> binary32_exponent x = max \<lfloor>log 2 \<bar>x\<bar>\<rfloor> (- 126)"
  using floor_log2_large [of x] floor_log2_small [of x]
  by (cases "1 \<le> \<bar>x\<bar>") (simp_all add: binary32_exponent_def)

lemma two_powi_split:
  assumes "i \<le> j"
  shows "(2::real) powi j = real_of_int (2 ^ nat (j - i)) * 2 powi i"
proof -
  have "(2::real) powi j = 2 powi ((j - i) + i)" by simp
  also have "\<dots> = 2 powi (j - i) * 2 powi i" by (rule power_int_add) simp
  also have "(2::real) powi (j - i) = 2 ^ nat (j - i)"
    using assms by (simp add: power_int_def)
  finally show ?thesis by simp
qed

lemma quot_of_mult: "(u::real) \<noteq> 0 \<Longrightarrow> x = a * u \<Longrightarrow> x / u = a"
  by simp

lemma of_int_scale_mono: "A \<le> B \<Longrightarrow> 0 \<le> (u::real) \<Longrightarrow> real_of_int A * u \<le> real_of_int B * u"
  by (rule mult_right_mono) simp_all

lemma binary32_value_exponent:
  assumes x: "x = real_of_int m * 2 powi j" and m: "\<bar>m\<bar> < 2 ^ 24" and nz: "x \<noteq> 0"
  shows "\<lfloor>log 2 \<bar>x\<bar>\<rfloor> - 23 \<le> j"
proof -
  have "\<bar>x\<bar> = real_of_int \<bar>m\<bar> * 2 powi j" by (simp add: x abs_mult)
  also have "\<dots> < real_of_int (2 ^ 24) * 2 powi j"
    using m by (intro mult_strict_right_mono) simp_all
  also have "\<dots> = 2 powi 24 * 2 powi j" by simp
  also have "\<dots> = 2 powi (24 + j)" by (rule power_int_add [symmetric]) simp
  finally have "\<lfloor>log 2 \<bar>x\<bar>\<rfloor> < 24 + j" by (rule floor_log2_less [OF nz])
  then show ?thesis by simp
qed

lemma binary32_exact:
  assumes x: "x = real_of_int m * 2 powi j" and m: "\<bar>m\<bar> < 2 ^ 24" and j: "- 149 \<le> j"
  shows "binary32 x = x"
proof (cases "x = 0")
  case True
  then show ?thesis by (simp add: binary32_def)
next
  case False
  let ?E = "binary32_exponent x"
  have "\<lfloor>log 2 \<bar>x\<bar>\<rfloor> - 23 \<le> j" by (rule binary32_value_exponent [OF x m False])
  then have E: "?E - 23 \<le> j" using j by (simp add: binary32_exponent_log [OF False])
  let ?N = "m * 2 ^ nat (j - (?E - 23))"
  have s: "(2::real) powi j = real_of_int (2 ^ nat (j - (?E - 23))) * 2 powi (?E - 23)"
    by (rule two_powi_split [OF E])
  have "x = real_of_int m * (real_of_int (2 ^ nat (j - (?E - 23))) * 2 powi (?E - 23))"
    by (subst s [symmetric]) (rule x)
  then have xN: "x = real_of_int ?N * 2 powi (?E - 23)" by simp
  have q: "x / 2 powi (?E - 23) = real_of_int ?N"
    by (rule quot_of_mult [OF _ xN]) simp
  have "binary32 x = real_of_int (round_half_even (real_of_int ?N)) * 2 powi (?E - 23)"
    using False by (simp only: binary32_def q if_False)
  also have "\<dots> = real_of_int ?N * 2 powi (?E - 23)"
    by (simp only: round_half_even_of_int)
  also have "\<dots> = x" using xN by simp
  finally show ?thesis .
qed

lemma binary32_nonneg: "0 \<le> x \<Longrightarrow> 0 \<le> binary32 x"
proof -
  assume x: "0 \<le> x"
  have "real_of_int 0 \<le> x / 2 powi (binary32_exponent x - 23)" using x by simp
  then have "0 \<le> round_half_even (x / 2 powi (binary32_exponent x - 23))"
    by (rule round_half_even_ge)
  then show ?thesis by (simp add: binary32_def)
qed

lemma binary32_nonpos: "x \<le> 0 \<Longrightarrow> binary32 x \<le> 0"
  using binary32_nonneg [of "- x"] by (simp add: binary32_minus)

lemma binary32_le_pos:
  assumes x: "0 < x" "x \<le> f"
    and f: "f = real_of_int m * 2 powi j" and m: "\<bar>m\<bar> < 2 ^ 24" and j: "- 149 \<le> j"
  shows "binary32 x \<le> f"
proof -
  let ?E = "binary32_exponent x" and ?u = "2 powi (binary32_exponent x - 23) :: real"
  have fnz: "f \<noteq> 0" and xnz: "x \<noteq> 0" using x by simp_all
  have "2 powi \<lfloor>log 2 \<bar>x\<bar>\<rfloor> \<le> \<bar>f\<bar>"
    using floor_log2_bounds(1) [OF xnz] x by simp
  then have "\<lfloor>log 2 \<bar>x\<bar>\<rfloor> \<le> \<lfloor>log 2 \<bar>f\<bar>\<rfloor>" by (rule floor_log2_ge [OF fnz])
  moreover have "\<lfloor>log 2 \<bar>f\<bar>\<rfloor> - 23 \<le> j" by (rule binary32_value_exponent [OF f m fnz])
  ultimately have E: "?E - 23 \<le> j" using j by (simp add: binary32_exponent_log [OF xnz])
  let ?N = "m * 2 ^ nat (j - (?E - 23))"
  have s: "(2::real) powi j = real_of_int (2 ^ nat (j - (?E - 23))) * ?u"
    by (rule two_powi_split [OF E])
  have "f = real_of_int m * (real_of_int (2 ^ nat (j - (?E - 23))) * ?u)"
    by (subst s [symmetric]) (rule f)
  then have fN: "f = real_of_int ?N * ?u" by simp
  have "x / ?u \<le> f / ?u" using x by (simp add: divide_right_mono)
  also have "f / ?u = real_of_int ?N" by (rule quot_of_mult [OF _ fN]) simp
  finally have "round_half_even (x / ?u) \<le> ?N" by (rule round_half_even_le)
  then have "real_of_int (round_half_even (x / ?u)) * ?u \<le> real_of_int ?N * ?u"
    by (rule of_int_scale_mono) simp
  then show ?thesis using xnz fN by (simp only: binary32_def if_False)
qed

lemma binary32_ge_pos:
  assumes x: "0 < f" "f \<le> x"
    and f: "f = real_of_int m * 2 powi j" and m: "\<bar>m\<bar> < 2 ^ 24" and j: "- 149 \<le> j"
  shows "f \<le> binary32 x"
proof -
  let ?E = "binary32_exponent x" and ?u = "2 powi (binary32_exponent x - 23) :: real"
  have fnz: "f \<noteq> 0" and xnz: "x \<noteq> 0" using x by simp_all
  have b: "binary32 x = real_of_int (round_half_even (x / ?u)) * ?u"
    using xnz by (simp only: binary32_def if_False)
  show ?thesis
  proof (cases "?E - 23 \<le> j")
    case True
    let ?N = "m * 2 ^ nat (j - (?E - 23))"
    have s: "(2::real) powi j = real_of_int (2 ^ nat (j - (?E - 23))) * ?u"
      by (rule two_powi_split [OF True])
    have "f = real_of_int m * (real_of_int (2 ^ nat (j - (?E - 23))) * ?u)"
      by (subst s [symmetric]) (rule f)
    then have fN: "f = real_of_int ?N * ?u" by simp
    have "real_of_int ?N = f / ?u" by (rule quot_of_mult [OF _ fN, symmetric]) simp
    also have "\<dots> \<le> x / ?u" using x by (simp add: divide_right_mono)
    finally have "?N \<le> round_half_even (x / ?u)" by (rule round_half_even_ge)
    then have "real_of_int ?N * ?u \<le> real_of_int (round_half_even (x / ?u)) * ?u"
      by (rule of_int_scale_mono) simp
    then show ?thesis using fN b by simp
  next
    case False
    then have jE: "24 + j \<le> ?E" by simp
    with j have "- 126 < ?E" by simp
    then have E: "?E = \<lfloor>log 2 \<bar>x\<bar>\<rfloor>"
      by (simp add: binary32_exponent_log [OF xnz] max_def split: if_splits)
    have "\<bar>f\<bar> = real_of_int \<bar>m\<bar> * 2 powi j" by (simp add: f abs_mult)
    also have "\<dots> < real_of_int (2 ^ 24) * 2 powi j"
      using m by (intro mult_strict_right_mono) simp_all
    also have "\<dots> = 2 powi 24 * 2 powi j" by simp
    also have "\<dots> = 2 powi (24 + j)" by (rule power_int_add [symmetric]) simp
    also have "\<dots> \<le> 2 powi ?E" using jE by (simp only: two_powi_le_iff)
    finally have fE: "f < 2 powi ?E" using x by simp
    have xE: "2 powi ?E \<le> x" using floor_log2_bounds(1) [OF xnz] x E by simp
    have pE: "(2::real) powi ?E = real_of_int (2 ^ 23) * ?u"
      using two_powi_split [of "?E - 23" ?E] by simp
    have "real_of_int (2 ^ 23) = 2 powi ?E / ?u" by (rule quot_of_mult [OF _ pE, symmetric]) simp
    also have "\<dots> \<le> x / ?u" using xE by (simp add: divide_right_mono)
    finally have "2 ^ 23 \<le> round_half_even (x / ?u)" by (rule round_half_even_ge)
    then have "real_of_int (2 ^ 23) * ?u \<le> real_of_int (round_half_even (x / ?u)) * ?u"
      by (rule of_int_scale_mono) simp
    with pE b fE show ?thesis by linarith
  qed
qed

lemma binary32_le:
  assumes x: "x \<le> f"
    and f: "f = real_of_int m * 2 powi j" and m: "\<bar>m\<bar> < 2 ^ 24" and j: "- 149 \<le> j"
  shows "binary32 x \<le> f"
proof -
  consider "0 < x" | "x \<le> 0 \<and> 0 \<le> f" | "f < 0" using x by linarith
  then show ?thesis
  proof cases
    case 1
    then show ?thesis using x by (rule binary32_le_pos [OF _ _ f m j])
  next
    case 2
    then show ?thesis using binary32_nonpos [of x] by linarith
  next
    case 3
    have f': "- f = real_of_int (- m) * 2 powi j" "\<bar>- m\<bar> < 2 ^ 24" using f m by simp_all
    have "- f \<le> binary32 (- x)"
      by (rule binary32_ge_pos [OF _ _ f' j]) (use 3 x in linarith)+
    then show ?thesis by (simp add: binary32_minus)
  qed
qed

lemma binary32_ge:
  assumes x: "f \<le> x"
    and f: "f = real_of_int m * 2 powi j" and m: "\<bar>m\<bar> < 2 ^ 24" and j: "- 149 \<le> j"
  shows "f \<le> binary32 x"
proof -
  have f': "- f = real_of_int (- m) * 2 powi j" "\<bar>- m\<bar> < 2 ^ 24" using f m by simp_all
  have "binary32 (- x) \<le> - f"
    by (rule binary32_le [OF _ f' j]) (use x in linarith)
  then show ?thesis by (simp add: binary32_minus)
qed

lemma binary32_of_int: "\<bar>n\<bar> < 2 ^ 24 \<Longrightarrow> binary32 (real_of_int n) = real_of_int n"
  by (rule binary32_exact [of _ n 0]) simp_all

lemma round_half_even_near:
  assumes "\<bar>y - real_of_int N\<bar> < 1 / 2"
  shows "round_half_even y = N"
proof (cases "real_of_int N \<le> y")
  case True
  then have "\<lfloor>y\<rfloor> = N" using assms by (intro floor_unique) linarith+
  then show ?thesis using assms True by (simp add: round_half_even_def Let_def)
next
  case False
  then have f: "\<lfloor>y\<rfloor> = N - 1" using assms by (intro floor_unique) (simp, linarith)+
  have "1 / 2 < y - real_of_int (N - 1)" using assms False by simp
  then show ?thesis unfolding round_half_even_def Let_def f by simp
qed

lemma binary32_in_binade:
  assumes lo: "2 powi e \<le> \<bar>x\<bar>" and hi: "\<bar>x\<bar> < 2 powi (e + 1)" and e: "- 126 \<le> e"
  shows "binary32 x = real_of_int (round_half_even (x / 2 powi (e - 23))) * 2 powi (e - 23)"
proof -
  have "0 < (2::real) powi e" by simp
  with lo have "0 < \<bar>x\<bar>" by linarith
  then have nz: "x \<noteq> 0" by auto
  have "e \<le> \<lfloor>log 2 \<bar>x\<bar>\<rfloor>" by (rule floor_log2_ge [OF nz lo])
  moreover have "\<lfloor>log 2 \<bar>x\<bar>\<rfloor> < e + 1" by (rule floor_log2_less [OF nz hi])
  ultimately have "binary32_exponent x = e" using e by (simp add: binary32_exponent_log [OF nz])
  then show ?thesis using nz by (simp add: binary32_def)
qed

section \<open>Reset, tick and totality\<close>

lemma center_in_range_iff:
  "center_in_range s \<longleftrightarrow>
     0 \<le> coord_x (map_center_pixel s) \<and> coord_x (map_center_pixel s) \<le> 100
     \<and> 0 \<le> coord_y (map_center_pixel s) \<and> coord_y (map_center_pixel s) \<le> 100"
  by (simp add: center_in_range_def pixel_constants)

lemma buffer_sized_iff: "buffer_sized s \<longleftrightarrow> length (data s) = 10201"
  by (simp add: buffer_sized_def pixel_constants)

lemma reset_eq:
  "app_slam_private_resetGlobalMap s =
     \<lparr> data = replicate 10201 0, map_center_pixel = \<lparr> coord_x = 50, coord_y = 50 \<rparr>,
       map_offset_mm = \<lparr> coord_x = 0, coord_y = 0 \<rparr> \<rparr>"
  by (simp add: app_slam_private_resetGlobalMap_def memset_zero_def pixel_constants)

lemma app_slam_init_eq:
  "app_slam_init =
     \<lparr> data = replicate 10201 0, map_center_pixel = \<lparr> coord_x = 50, coord_y = 50 \<rparr>,
       map_offset_mm = \<lparr> coord_x = 0, coord_y = 0 \<rparr> \<rparr>"
  by (simp add: app_slam_init_def app_slam_private_resetGlobalMap_def memset_zero_def
      pixel_constants)

lemma tick_unfold:
  "globalMapUpdate_from mx my s = Inr s' \<longleftrightarrow>
     (\<exists>dx dy s1.
        GMAP_MM_TO_UNIT_PIXEL (binary32 (mx + coord_x (map_offset_mm s))) = Inr dx
      \<and> GMAP_MM_TO_UNIT_PIXEL (binary32 (my + coord_y (map_offset_mm s))) = Inr dy
      \<and> app_slam_private_translateGlobalMap dx dy s = Inr s1
      \<and> app_slam_private_clearVehicleRegion
           (s1 \<lparr> map_offset_mm :=
              \<lparr> coord_x = binary32 (binary32 (mx + coord_x (map_offset_mm s)) - GMAP_UNIT_PIXEL_TO_MM dx),
                coord_y = binary32 (binary32 (my + coord_y (map_offset_mm s)) - GMAP_UNIT_PIXEL_TO_MM dy) \<rparr> \<rparr>) = Inr s')"
  unfolding globalMapUpdate_from_def Let_def
  by (auto split: sum.splits)

lemma band_bounds:
  "band_start c00 d \<le> i \<Longrightarrow> i < band_end c00 d \<Longrightarrow>
     min c00 (c00 + d) \<le> i \<and> i < max c00 (c00 + d)"
  by (auto simp: band_start_def band_end_def split: if_splits)

lemma translate_total:
  assumes "buffer_sized s"
    and "- 101 \<le> coord_x (map_center_pixel s) - 50" "coord_x (map_center_pixel s) - 50 \<le> 202"
    and "- 101 \<le> coord_x (map_center_pixel s) - 50 + dx" "coord_x (map_center_pixel s) - 50 + dx \<le> 202"
    and "- 101 \<le> coord_y (map_center_pixel s) - 50" "coord_y (map_center_pixel s) - 50 \<le> 202"
    and "- 101 \<le> coord_y (map_center_pixel s) - 50 + dy" "coord_y (map_center_pixel s) - 50 + dy \<le> 202"
  shows "\<exists>s'. app_slam_private_translateGlobalMap dx dy s = Inr s' \<and> length (data s') = 10201
    \<and> map_offset_mm s' = map_offset_mm s
    \<and> coord_x (map_center_pixel s') = wrap_x (coord_x (map_center_pixel s) + dx)
    \<and> coord_y (map_center_pixel s') = wrap_x (coord_y (map_center_pixel s) + dy)
    \<and> (\<forall>x y. 0 \<le> x \<and> x \<le> 100 \<and> 0 \<le> y \<and> y \<le> 100 \<longrightarrow>
         data s' ! nat (y * 101 + x) =
           (if in_band (coord_x (map_center_pixel s) - 50) dx x
               \<or> in_band (coord_y (map_center_pixel s) - 50) dy y
            then 0 else data s ! nat (y * 101 + x)))"
proof (rule translate_safe)
  show "length (data s) = 10201" using assms(1) by (simp add: buffer_sized_iff)
next
  fix i
  assume "band_start (coord_x (map_center_pixel s) - 50) dx \<le> i"
    "i < band_end (coord_x (map_center_pixel s) - 50) dx"
  from band_bounds [OF this] assms(2-5) show "- 101 \<le> i \<and> i \<le> 201" by linarith
next
  fix j
  assume "band_start (coord_y (map_center_pixel s) - 50) dy \<le> j"
    "j < band_end (coord_y (map_center_pixel s) - 50) dy"
  from band_bounds [OF this] assms(6-9) show "- 101 \<le> j \<and> j \<le> 201" by linarith
qed

lemma tick_total:
  assumes b: "buffer_sized s" and c: "center_in_range s"
    and dx: "GMAP_MM_TO_UNIT_PIXEL (binary32 (mx + coord_x (map_offset_mm s))) = Inr dx"
    and dy: "GMAP_MM_TO_UNIT_PIXEL (binary32 (my + coord_y (map_offset_mm s))) = Inr dy"
    and sx: "- 51 \<le> coord_x (map_center_pixel s) + dx" "coord_x (map_center_pixel s) + dx \<le> 252"
    and sy: "- 51 \<le> coord_y (map_center_pixel s) + dy" "coord_y (map_center_pixel s) + dy \<le> 252"
  shows "\<exists>s'. globalMapUpdate_from mx my s = Inr s' \<and> length (data s') = 10201
    \<and> coord_x (map_center_pixel s') = wrap_x (coord_x (map_center_pixel s) + dx)
    \<and> coord_y (map_center_pixel s') = wrap_x (coord_y (map_center_pixel s) + dy)
    \<and> map_offset_mm s' =
        \<lparr> coord_x = binary32 (binary32 (mx + coord_x (map_offset_mm s)) - GMAP_UNIT_PIXEL_TO_MM dx),
          coord_y = binary32 (binary32 (my + coord_y (map_offset_mm s)) - GMAP_UNIT_PIXEL_TO_MM dy) \<rparr>"
proof -
  have "\<exists>s1. app_slam_private_translateGlobalMap dx dy s = Inr s1 \<and> length (data s1) = 10201
    \<and> map_offset_mm s1 = map_offset_mm s
    \<and> coord_x (map_center_pixel s1) = wrap_x (coord_x (map_center_pixel s) + dx)
    \<and> coord_y (map_center_pixel s1) = wrap_x (coord_y (map_center_pixel s) + dy)
    \<and> (\<forall>x y. 0 \<le> x \<and> x \<le> 100 \<and> 0 \<le> y \<and> y \<le> 100 \<longrightarrow>
         data s1 ! nat (y * 101 + x) =
           (if in_band (coord_x (map_center_pixel s) - 50) dx x
               \<or> in_band (coord_y (map_center_pixel s) - 50) dy y
            then 0 else data s ! nat (y * 101 + x)))"
    using b c sx sy by (intro translate_total) (simp_all add: center_in_range_iff)
  then obtain s1 where t: "app_slam_private_translateGlobalMap dx dy s = Inr s1"
    and len1: "length (data s1) = 10201"
    and cx1: "coord_x (map_center_pixel s1) = wrap_x (coord_x (map_center_pixel s) + dx)"
    and cy1: "coord_y (map_center_pixel s1) = wrap_x (coord_y (map_center_pixel s) + dy)"
    by blast
  let ?off = "\<lparr> coord_x = binary32 (binary32 (mx + coord_x (map_offset_mm s)) - GMAP_UNIT_PIXEL_TO_MM dx),
                coord_y = binary32 (binary32 (my + coord_y (map_offset_mm s)) - GMAP_UNIT_PIXEL_TO_MM dy) \<rparr>"
  let ?s2 = "s1 \<lparr> map_offset_mm := ?off \<rparr>"
  have r: "- 96 \<le> coord_x (map_center_pixel ?s2)" "coord_x (map_center_pixel ?s2) \<le> 196"
      "- 96 \<le> coord_y (map_center_pixel ?s2)" "coord_y (map_center_pixel ?s2) \<le> 196"
    using sx sy by (simp_all add: cx1 cy1 wrap_x_cases)
  have "length (data ?s2) = 10201" using len1 by simp
  from clearVehicleRegion_total [OF this r] obtain d where
    cl: "app_slam_private_clearVehicleRegion ?s2 = Inr (?s2 \<lparr> data := d \<rparr>)"
    and lend: "length d = 10201"
    by blast
  have "globalMapUpdate_from mx my s = Inr (?s2 \<lparr> data := d \<rparr>)"
    unfolding tick_unfold using dx dy t cl by blast
  then show ?thesis using lend cx1 cy1 by (intro exI [of _ "?s2 \<lparr> data := d \<rparr>"]) simp
qed

lemma trunc_toward_zero_minus: "trunc_toward_zero (- r) = - trunc_toward_zero r"
proof -
  consider "r = 0" | "0 < r" | "r < 0" by linarith
  then show ?thesis by cases (simp_all add: trunc_toward_zero_def)
qed

lemma trunc_toward_zero_between:
  assumes "0 \<le> k" and "real_of_int k \<le> r" and "r < real_of_int k + 1"
  shows "trunc_toward_zero r = k"
proof -
  have "0 \<le> r" using assms(1,2) by linarith
  moreover have "\<lfloor>r\<rfloor> = k" using assms(2,3) by (rule floor_unique)
  ultimately show ?thesis by (simp add: trunc_toward_zero_def)
qed

lemma float_to_int32_trunc:
  "- 2147483648 \<le> trunc_toward_zero r \<Longrightarrow> trunc_toward_zero r < 2147483648 \<Longrightarrow>
     float_to_int32 r = Inr (trunc_toward_zero r)"
  by (simp add: float_to_int32_def Let_def)

lemma binary32_quotient_whole:
  assumes "0 \<le> n" and "n \<le> 1000009"
  shows "real_of_int (n div 10) \<le> binary32 (real_of_int n / 10)"
    and "binary32 (real_of_int n / 10) < real_of_int (n div 10) + 1"
proof -
  let ?k = "n div 10"
  have k: "0 \<le> ?k" "?k \<le> 100000" using assms by simp_all
  have "n = ?k * 10 + n mod 10" by simp
  moreover have "0 \<le> n mod 10" "n mod 10 < 10" by simp_all
  ultimately have n: "?k * 10 \<le> n" "n \<le> ?k * 10 + 9" by linarith+
  have lo: "real_of_int ?k \<le> real_of_int n / 10"
  proof -
    have "real_of_int (?k * 10) \<le> real_of_int n" using n(1) by (simp only: of_int_le_iff)
    then show ?thesis by simp
  qed
  have hi: "real_of_int n / 10 \<le> real_of_int (16 * ?k + 15) * 2 powi (- 4)"
  proof -
    have "real_of_int n \<le> real_of_int (?k * 10 + 9)" using n(2) by (simp only: of_int_le_iff)
    then show ?thesis by simp
  qed
  show "real_of_int ?k \<le> binary32 (real_of_int n / 10)"
    by (rule binary32_ge [OF lo, of ?k 0]) (use k in simp_all)
  have "binary32 (real_of_int n / 10) \<le> real_of_int (16 * ?k + 15) * 2 powi (- 4)"
    by (rule binary32_le [OF hi, of "16 * ?k + 15" "- 4"]) (use k in simp_all)
  also have "\<dots> < real_of_int ?k + 1" by simp
  finally show "binary32 (real_of_int n / 10) < real_of_int ?k + 1" .
qed

lemma mm_to_pixel_whole_nonneg:
  assumes "0 \<le> n" and "n \<le> 1000009"
  shows "trunc_toward_zero (binary32 (real_of_int n / 10)) = n div 10"
  by (rule trunc_toward_zero_between [OF _ binary32_quotient_whole [OF assms]])
    (use assms in simp)

lemma mm_to_pixel_whole:
  assumes "\<bar>n\<bar> \<le> 1000009"
  shows "GMAP_MM_TO_UNIT_PIXEL (real_of_int n) =
     Inr (if 0 \<le> n then n div 10 else - (- n div 10))"
proof (cases "0 \<le> n")
  case True
  then have t: "trunc_toward_zero (binary32 (real_of_int n / 10)) = n div 10"
    using assms by (intro mm_to_pixel_whole_nonneg) simp_all
  have "0 \<le> n div 10" "n div 10 \<le> 100000" using True assms by simp_all
  then have "float_to_int32 (binary32 (real_of_int n / 10)) = Inr (n div 10)"
    using float_to_int32_trunc [of "binary32 (real_of_int n / 10)"] t by simp
  then show ?thesis
    using True by (simp add: GMAP_MM_TO_UNIT_PIXEL_def GMAP_UNIT_GRID_STEP_SIZE_MM_def)
next
  case False
  then have m: "0 \<le> - n" "- n \<le> 1000009" using assms by simp_all
  have "real_of_int n / 10 = - (real_of_int (- n) / 10)" by simp
  then have "trunc_toward_zero (binary32 (real_of_int n / 10)) =
      - trunc_toward_zero (binary32 (real_of_int (- n) / 10))"
    by (simp only: binary32_minus trunc_toward_zero_minus)
  also have "\<dots> = - (- n div 10)" by (simp only: mm_to_pixel_whole_nonneg [OF m])
  finally have t: "trunc_toward_zero (binary32 (real_of_int n / 10)) = - (- n div 10)" .
  have "0 \<le> - n div 10" "- n div 10 \<le> 100000" using m by simp_all
  then have "float_to_int32 (binary32 (real_of_int n / 10)) = Inr (- (- n div 10))"
    using float_to_int32_trunc [of "binary32 (real_of_int n / 10)"] t by simp
  then show ?thesis
    using False by (simp add: GMAP_MM_TO_UNIT_PIXEL_def GMAP_UNIT_GRID_STEP_SIZE_MM_def)
qed

lemma pixel_to_mm_whole:
  assumes "\<bar>p\<bar> \<le> 1000000"
  shows "GMAP_UNIT_PIXEL_TO_MM p = real_of_int (p * 10)"
proof -
  have "binary32 (real_of_int p) = real_of_int p"
    using assms by (intro binary32_of_int) simp
  moreover have "binary32 (real_of_int (p * 10)) = real_of_int (p * 10)"
    using assms by (intro binary32_of_int) simp
  ultimately show ?thesis
    by (simp add: GMAP_UNIT_PIXEL_TO_MM_def GMAP_UNIT_GRID_STEP_SIZE_MM_def)
qed

lemma half_pixel: "binary32 (- 5) = - 5" "GMAP_MM_TO_UNIT_PIXEL (- 5) = Inr 0"
  using binary32_of_int [of "- 5"] mm_to_pixel_whole [of "- 5"] by simp_all

lemma reachable_invariant:
  "reachable s \<Longrightarrow>
     center_in_range s \<and> buffer_sized s \<and> set (data s) \<subseteq> {GRID_CELL_NEUTRAL, GRID_CELL_VISITED}"
proof (induction rule: reachable.induct)
  case reach_init
  show ?case
    by (simp add: center_in_range_iff buffer_sized_iff reset_eq app_slam_init_eq
        GRID_CELL_NEUTRAL_def)
next
  case (reach_reset gMap)
  show ?case
    by (simp add: center_in_range_iff buffer_sized_iff reset_eq GRID_CELL_NEUTRAL_def)
next
  case (reach_translate gMap dx dy gMap')
  note D = translate_Inr_D [OF reach_translate.hyps(4)]
  have d: "- 100 \<le> dx" "dx \<le> 100" "- 100 \<le> dy" "dy \<le> 100"
    using reach_translate.hyps(2,3) by (simp_all add: pixel_constants)
  have "center_in_range gMap'"
    using reach_translate.IH d unfolding center_in_range_iff D(3,4)
    by (auto simp: wrap_x_cases)
  moreover have "buffer_sized gMap'"
    using reach_translate.IH D(1) by (simp add: buffer_sized_iff)
  moreover have "set (data gMap') \<subseteq> {GRID_CELL_NEUTRAL, GRID_CELL_VISITED}"
    using reach_translate.IH D(2) by auto
  ultimately show ?case by simp
next
  case (reach_clear gMap gMap')
  note D = clearVehicleRegion_Inr_D [OF reach_clear.hyps(2)]
  have "center_in_range gMap'"
    using reach_clear.IH D(3) by (simp add: center_in_range_def)
  moreover have "buffer_sized gMap'"
    using reach_clear.IH D(1) by (simp add: buffer_sized_iff)
  moreover have "set (data gMap') \<subseteq> {GRID_CELL_NEUTRAL, GRID_CELL_VISITED}"
    using reach_clear.IH D(2) by auto
  ultimately show ?case by simp
next
  case (reach_tick gMap mx dx my dy gMap')
  from reach_tick.hyps(6) reach_tick.hyps(2,3) obtain s1 where
    t: "app_slam_private_translateGlobalMap dx dy gMap = Inr s1"
    and c: "app_slam_private_clearVehicleRegion
           (s1 \<lparr> map_offset_mm :=
              \<lparr> coord_x = binary32 (binary32 (mx + coord_x (map_offset_mm gMap)) - GMAP_UNIT_PIXEL_TO_MM dx),
                coord_y = binary32 (binary32 (my + coord_y (map_offset_mm gMap)) - GMAP_UNIT_PIXEL_TO_MM dy) \<rparr> \<rparr>) = Inr gMap'"
    unfolding tick_unfold by auto
  note T = translate_Inr_D [OF t]
  note C = clearVehicleRegion_Inr_D [OF c]
  have d: "- 100 \<le> dx" "dx \<le> 100" "- 100 \<le> dy" "dy \<le> 100"
    using reach_tick.hyps(4,5) by (simp_all add: pixel_constants)
  have "center_in_range s1"
    using reach_tick.IH d unfolding center_in_range_iff T(3,4)
    by (auto simp: wrap_x_cases)
  then have "center_in_range gMap'"
    using C(3) by (simp add: center_in_range_def)
  moreover have "buffer_sized gMap'"
    using reach_tick.IH T(1) C(1) by (simp add: buffer_sized_iff)
  moreover have "set (data gMap') \<subseteq> {GRID_CELL_NEUTRAL, GRID_CELL_VISITED}"
    using reach_tick.IH T(2) C(2) by auto
  ultimately show ?case by simp
qed

lemma init_facts:
  "buffer_sized app_slam_init" "center_in_range app_slam_init"
  "map_offset_mm app_slam_init = \<lparr> coord_x = 0, coord_y = 0 \<rparr>"
  "map_center_pixel app_slam_init = \<lparr> coord_x = 50, coord_y = 50 \<rparr>"
  by (simp_all add: buffer_sized_iff center_in_range_iff app_slam_init_eq)

lemma drift_axis_Inr:
  "drift_axis m off = Inr (px, l) \<longleftrightarrow>
     GMAP_MM_TO_UNIT_PIXEL (binary32 (m + off)) = Inr px
     \<and> l = binary32 (binary32 (m + off) - GMAP_UNIT_PIXEL_TO_MM px)"
  by (auto simp: drift_axis_def Let_def split: sum.splits)

lemma drift_axis_whole:
  assumes "\<bar>n + l\<bar> \<le> 1000009"
  shows "drift_axis (real_of_int n) (real_of_int l) =
     Inr (if 0 \<le> n + l then (n + l) div 10 else - (- (n + l) div 10),
          real_of_int (n + l - (if 0 \<le> n + l then (n + l) div 10 else - (- (n + l) div 10)) * 10))"
proof -
  define c where "c = n + l"
  define q where "q = (if 0 \<le> c then c div 10 else - (- c div 10))"
  have c: "binary32 (real_of_int n + real_of_int l) = real_of_int c"
    using binary32_of_int [of c] assms by (simp add: c_def)
  have px: "GMAP_MM_TO_UNIT_PIXEL (real_of_int c) = Inr q"
    using mm_to_pixel_whole [of c] assms by (simp add: c_def q_def)
  have q: "\<bar>q\<bar> \<le> 1000000" using assms by (auto simp: c_def q_def split: if_splits)
  have mm: "GMAP_UNIT_PIXEL_TO_MM q = real_of_int (q * 10)"
    by (rule pixel_to_mm_whole [OF q])
  have r: "\<bar>c - q * 10\<bar> \<le> 9"
  proof (cases "0 \<le> c")
    case True
    have "c - c div 10 * 10 = c mod 10" by (simp add: minus_div_mult_eq_mod)
    moreover have "0 \<le> c mod 10" "c mod 10 < 10" by simp_all
    ultimately show ?thesis using True by (simp add: q_def)
  next
    case False
    have "- c - (- c) div 10 * 10 = (- c) mod 10" by (simp add: minus_div_mult_eq_mod)
    moreover have "0 \<le> (- c) mod 10" "(- c) mod 10 < 10" by simp_all
    ultimately show ?thesis using False by (simp add: q_def)
  qed
  have "real_of_int c - real_of_int (q * 10) = real_of_int (c - q * 10)" by simp
  moreover have "binary32 (real_of_int (c - q * 10)) = real_of_int (c - q * 10)"
    using r by (intro binary32_of_int) simp
  ultimately have l: "binary32 (real_of_int c - real_of_int (q * 10)) = real_of_int (c - q * 10)"
    by (simp only:)
  have "drift_axis (real_of_int n) (real_of_int l) = Inr (q, real_of_int (c - q * 10))"
    unfolding drift_axis_Inr c px mm l by simp
  then show ?thesis unfolding q_def c_def .
qed

lemma tick_by_axis:
  assumes b: "buffer_sized s" and c: "center_in_range s"
    and dx: "drift_axis mx (coord_x (map_offset_mm s)) = Inr (dx, lx)"
    and dy: "drift_axis my (coord_y (map_offset_mm s)) = Inr (dy, ly)"
    and sx: "- 51 \<le> coord_x (map_center_pixel s) + dx" "coord_x (map_center_pixel s) + dx \<le> 252"
    and sy: "- 51 \<le> coord_y (map_center_pixel s) + dy" "coord_y (map_center_pixel s) + dy \<le> 252"
  shows "\<exists>s'. globalMapUpdate_from mx my s = Inr s' \<and> length (data s') = 10201
    \<and> coord_x (map_center_pixel s') = wrap_x (coord_x (map_center_pixel s) + dx)
    \<and> coord_y (map_center_pixel s') = wrap_x (coord_y (map_center_pixel s) + dy)
    \<and> map_offset_mm s' = \<lparr> coord_x = lx, coord_y = ly \<rparr>"
proof -
  from dx dy have px: "GMAP_MM_TO_UNIT_PIXEL (binary32 (mx + coord_x (map_offset_mm s))) = Inr dx"
    "GMAP_MM_TO_UNIT_PIXEL (binary32 (my + coord_y (map_offset_mm s))) = Inr dy"
    and l: "lx = binary32 (binary32 (mx + coord_x (map_offset_mm s)) - GMAP_UNIT_PIXEL_TO_MM dx)"
    "ly = binary32 (binary32 (my + coord_y (map_offset_mm s)) - GMAP_UNIT_PIXEL_TO_MM dy)"
    by (simp_all add: drift_axis_Inr)
  show ?thesis
    using tick_total [OF b c px sx sy] unfolding l by blast
qed

lemma tick_drift:
  assumes "globalMapUpdate_from mx my s = Inr s'"
  shows "\<exists>dx dy. drift_axis mx (coord_x (map_offset_mm s)) = Inr (dx, coord_x (map_offset_mm s'))
    \<and> drift_axis my (coord_y (map_offset_mm s)) = Inr (dy, coord_y (map_offset_mm s'))
    \<and> coord_x (map_center_pixel s') = wrap_x (coord_x (map_center_pixel s) + dx)
    \<and> coord_y (map_center_pixel s') = wrap_x (coord_y (map_center_pixel s) + dy)"
proof -
  from assms obtain dx dy s1 where
    px: "GMAP_MM_TO_UNIT_PIXEL (binary32 (mx + coord_x (map_offset_mm s))) = Inr dx"
      "GMAP_MM_TO_UNIT_PIXEL (binary32 (my + coord_y (map_offset_mm s))) = Inr dy"
    and t: "app_slam_private_translateGlobalMap dx dy s = Inr s1"
    and c: "app_slam_private_clearVehicleRegion
           (s1 \<lparr> map_offset_mm :=
              \<lparr> coord_x = binary32 (binary32 (mx + coord_x (map_offset_mm s)) - GMAP_UNIT_PIXEL_TO_MM dx),
                coord_y = binary32 (binary32 (my + coord_y (map_offset_mm s)) - GMAP_UNIT_PIXEL_TO_MM dy) \<rparr> \<rparr>) = Inr s'"
    unfolding tick_unfold by blast
  note T = translate_Inr_D [OF t]
  note C = clearVehicleRegion_Inr_D [OF c]
  have "drift_axis mx (coord_x (map_offset_mm s)) = Inr (dx, coord_x (map_offset_mm s'))"
    "drift_axis my (coord_y (map_offset_mm s)) = Inr (dy, coord_y (map_offset_mm s'))"
    using px C(4) by (simp_all add: drift_axis_Inr)
  moreover have "coord_x (map_center_pixel s') = wrap_x (coord_x (map_center_pixel s) + dx)"
    "coord_y (map_center_pixel s') = wrap_x (coord_y (map_center_pixel s) + dy)"
    using T(3,4) C(3) by simp_all
  ultimately show ?thesis by blast
qed

lemma mock_axis: "drift_axis (- 10) 0 = Inr (- 1, 0)"
  using drift_axis_whole [of "- 10" 0] by simp

lemma first_tick:
  "\<exists>s'. app_slam_private_globalMapUpdate app_slam_init = Inr s'
     \<and> coord_x (map_center_pixel s') = 49 \<and> coord_y (map_center_pixel s') = 49
     \<and> map_offset_mm s' = \<lparr> coord_x = 0, coord_y = 0 \<rparr>"
proof -
  have ax: "drift_axis (- 10) (coord_x (map_offset_mm app_slam_init)) = Inr (- 1, 0)"
    "drift_axis (- 10) (coord_y (map_offset_mm app_slam_init)) = Inr (- 1, 0)"
    using mock_axis by (simp_all add: init_facts)
  have "\<exists>s'. globalMapUpdate_from (- 10) (- 10) app_slam_init = Inr s' \<and> length (data s') = 10201
    \<and> coord_x (map_center_pixel s') = wrap_x (coord_x (map_center_pixel app_slam_init) + - 1)
    \<and> coord_y (map_center_pixel s') = wrap_x (coord_y (map_center_pixel app_slam_init) + - 1)
    \<and> map_offset_mm s' = \<lparr> coord_x = 0, coord_y = 0 \<rparr>"
    by (rule tick_by_axis [OF init_facts(1,2) ax]) (simp_all add: init_facts)
  then have "\<exists>s'. globalMapUpdate_from (- 10) (- 10) app_slam_init = Inr s'
    \<and> length (data s') = 10201
    \<and> coord_x (map_center_pixel s') = 49 \<and> coord_y (map_center_pixel s') = 49
    \<and> map_offset_mm s' = \<lparr> coord_x = 0, coord_y = 0 \<rparr>"
    by (simp add: init_facts wrap_x_cases)
  then show ?thesis
    unfolding app_slam_private_globalMapUpdate_def by blast
qed

lemma first_tick_reachable:
  "\<not> isl (app_slam_private_globalMapUpdate app_slam_init)"
  "reachable (projr (app_slam_private_globalMapUpdate app_slam_init))"
  "coord_x (map_center_pixel (projr (app_slam_private_globalMapUpdate app_slam_init))) = 49"
  "coord_y (map_center_pixel (projr (app_slam_private_globalMapUpdate app_slam_init))) = 49"
proof -
  from first_tick obtain s' where s': "app_slam_private_globalMapUpdate app_slam_init = Inr s'"
    and c: "coord_x (map_center_pixel s') = 49" "coord_y (map_center_pixel s') = 49"
    by blast
  have ax: "drift_axis (- 10) (coord_x (map_offset_mm app_slam_init)) = Inr (- 1, 0)"
    "drift_axis (- 10) (coord_y (map_offset_mm app_slam_init)) = Inr (- 1, 0)"
    using mock_axis by (simp_all add: init_facts)
  then have px:
    "GMAP_MM_TO_UNIT_PIXEL (binary32 (- 10 + coord_x (map_offset_mm app_slam_init))) = Inr (- 1)"
    "GMAP_MM_TO_UNIT_PIXEL (binary32 (- 10 + coord_y (map_offset_mm app_slam_init))) = Inr (- 1)"
    by (simp_all add: drift_axis_Inr)
  have "reachable s'"
    by (rule reach_tick [OF reach_init px])
      (use s' in \<open>simp_all add: pixel_constants app_slam_private_globalMapUpdate_def\<close>)
  with s' c show "\<not> isl (app_slam_private_globalMapUpdate app_slam_init)"
    "reachable (projr (app_slam_private_globalMapUpdate app_slam_init))"
    "coord_x (map_center_pixel (projr (app_slam_private_globalMapUpdate app_slam_init))) = 49"
    "coord_y (map_center_pixel (projr (app_slam_private_globalMapUpdate app_slam_init))) = 49"
    by simp_all
qed

lemma first_clear:
  "\<not> isl (app_slam_private_clearVehicleRegion app_slam_init)"
  "reachable (projr (app_slam_private_clearVehicleRegion app_slam_init))"
  "GRID_CELL_VISITED \<in> set (data (projr (app_slam_private_clearVehicleRegion app_slam_init)))"
proof -
  have len: "length (data app_slam_init) = 10201" by (simp add: app_slam_init_eq)
  have "\<exists>d. app_slam_private_clearVehicleRegion app_slam_init = Inr (app_slam_init \<lparr> data := d \<rparr>)
      \<and> length d = 10201
      \<and> (\<forall>n < 10201. d ! n =
          (if int n \<in> set (vehicle_region (map_center_pixel app_slam_init)) then GRID_CELL_VISITED
           else data app_slam_init ! n))"
    by (rule clearVehicleRegion_total [OF len]) (simp_all add: init_facts)
  then obtain d where d: "app_slam_private_clearVehicleRegion app_slam_init = Inr (app_slam_init \<lparr> data := d \<rparr>)"
    and lend: "length d = 10201"
    and nth: "\<And>n. n < 10201 \<Longrightarrow> d ! n =
          (if int n \<in> set (vehicle_region (map_center_pixel app_slam_init)) then GRID_CELL_VISITED
           else data app_slam_init ! n)"
    by blast
  have "(5100 :: int) = wrap_x (50 - 5 + 5) * 101 + wrap_x (50 - 5 + 5)"
    by (simp add: wrap_x_cases)
  moreover have "PADDING ! nat 5 \<le> 5 \<and> 5 \<le> 10 - PADDING ! nat 5"
    by (simp add: PADDING_def)
  ultimately have "int 5100 \<in> set (vehicle_region (map_center_pixel app_slam_init))"
    unfolding vehicle_region_mem init_facts(4)
    by (intro exI [of _ 5]) simp
  with nth [of 5100] have "d ! 5100 = GRID_CELL_VISITED" by simp
  moreover have "d ! 5100 \<in> set d"
    by (rule nth_mem) (simp add: lend)
  ultimately have "GRID_CELL_VISITED \<in> set d" by simp
  with d show "\<not> isl (app_slam_private_clearVehicleRegion app_slam_init)"
    "GRID_CELL_VISITED \<in> set (data (projr (app_slam_private_clearVehicleRegion app_slam_init)))"
    by simp_all
  from d show "reachable (projr (app_slam_private_clearVehicleRegion app_slam_init))"
    using reach_clear [OF reach_init d] by simp
qed



section \<open>Faults of the translation; the footprint in window coordinates\<close>

lemma translate_fault_vertical:
  assumes "reset_vertical_columns dx (coord_x (map_center_pixel s) - 50) (data s) = Inl e"
  shows "app_slam_private_translateGlobalMap dx dy s = Inl e"
  using assms unfolding app_slam_private_translateGlobalMap_def Let_def pixel_constants
  by simp

lemma reset_vertical_columns_fault:
  assumes "dx < 0" and "x00 + dx < - 101"
  shows "reset_vertical_columns dx x00 m = Inl OutOfBounds"
proof -
  let ?i = "x00 + dx"
  have b: "band_start x00 dx = ?i" "band_end x00 dx = x00"
    using assms(1) by (simp_all add: band_start_def band_end_def)
  have "?i + 101 = 0 + int 0 * 101 + wrap_x ?i" using assms(2) by (simp add: wrap_x_cases)
  moreover have "(0::nat) < 101" "?i \<le> ?i" "?i < x00" using assms(1) by simp_all
  ultimately have "?i + 101 \<in> set (reset_columns 101 0 ?i x00)"
    unfolding reset_columns_set by blast
  moreover have "\<not> (0 \<le> ?i + 101 \<and> ?i + 101 < int (length m))" using assms(2) by simp
  ultimately have "mstores m (reset_columns 101 0 ?i x00) 0 = Inl OutOfBounds"
    by (rule mstores_fault)
  then show ?thesis using assms(1) by (simp add: reset_vertical_columns_eq b)
qed

lemma translate_negative_shift_faults:
  assumes "dx < 0" and "coord_x (map_center_pixel s) + dx < - 51"
  shows "app_slam_private_translateGlobalMap dx dy s = Inl OutOfBounds"
  by (rule translate_fault_vertical, rule reset_vertical_columns_fault) (use assms in simp_all)

lemma edge_state:
  "\<not> isl (app_slam_private_translateGlobalMap (- 50) 0 app_slam_init)"
  "reachable (projr (app_slam_private_translateGlobalMap (- 50) 0 app_slam_init))"
  "coord_x (map_center_pixel (projr (app_slam_private_translateGlobalMap (- 50) 0 app_slam_init))) = 0"
  "coord_y (map_center_pixel (projr (app_slam_private_translateGlobalMap (- 50) 0 app_slam_init))) = 50"
proof -
  have "\<exists>t'. app_slam_private_translateGlobalMap (- 50) 0 app_slam_init = Inr t' \<and> length (data t') = 10201
    \<and> map_offset_mm t' = map_offset_mm app_slam_init
    \<and> coord_x (map_center_pixel t') = wrap_x (coord_x (map_center_pixel app_slam_init) + - 50)
    \<and> coord_y (map_center_pixel t') = wrap_x (coord_y (map_center_pixel app_slam_init) + 0)
    \<and> (\<forall>x y. 0 \<le> x \<and> x \<le> 100 \<and> 0 \<le> y \<and> y \<le> 100 \<longrightarrow>
         data t' ! nat (y * 101 + x) =
           (if in_band (coord_x (map_center_pixel app_slam_init) - 50) (- 50) x
               \<or> in_band (coord_y (map_center_pixel app_slam_init) - 50) 0 y
            then 0 else data app_slam_init ! nat (y * 101 + x)))"
    by (rule translate_total [OF init_facts(1)]) (simp_all add: init_facts)
  then obtain t' where t': "app_slam_private_translateGlobalMap (- 50) 0 app_slam_init = Inr t'"
    and c: "coord_x (map_center_pixel t') = 0" "coord_y (map_center_pixel t') = 50"
    by (auto simp: init_facts wrap_x_cases)
  have "reachable t'"
    by (rule reach_translate [OF reach_init _ _ t']) (simp_all add: pixel_constants)
  with t' c show "\<not> isl (app_slam_private_translateGlobalMap (- 50) 0 app_slam_init)"
    "reachable (projr (app_slam_private_translateGlobalMap (- 50) 0 app_slam_init))"
    "coord_x (map_center_pixel (projr (app_slam_private_translateGlobalMap (- 50) 0 app_slam_init))) = 0"
    "coord_y (map_center_pixel (projr (app_slam_private_translateGlobalMap (- 50) 0 app_slam_init))) = 50"
    by simp_all
qed

lemma wrap_x_inj:
  assumes "- 101 \<le> u" "u \<le> 201" "- 101 \<le> v" "v \<le> 201" "\<bar>u - v\<bar> \<le> 100" "wrap_x u = wrap_x v"
  shows "u = v"
proof -
  have "wrap_x u = u + 101 \<or> wrap_x u = u \<or> wrap_x u = u - 101"
    "wrap_x v = v + 101 \<or> wrap_x v = v \<or> wrap_x v = v - 101"
    by (simp_all add: wrap_x_cases)
  moreover have "0 \<le> wrap_x u \<and> wrap_x u \<le> 100" "0 \<le> wrap_x v \<and> wrap_x v \<le> 100"
    using assms by (simp_all add: wrap_x_range)
  ultimately show ?thesis using assms(5,6) by linarith
qed

lemma centered_index_eq:
  "centered_index mc i j = wrap_x (coord_y mc - 50 + j) * 101 + wrap_x (coord_x mc - 50 + i)"
  by (simp add: centered_index_def Let_def wrap_x_def pixel_constants)

lemma footprint_window:
  assumes c: "0 \<le> coord_x mc" "coord_x mc \<le> 100" "0 \<le> coord_y mc" "coord_y mc \<le> 100"
    and ij: "0 \<le> i" "i \<le> 100" "0 \<le> j" "j \<le> 100"
  shows "centered_index mc i j \<in> set (vehicle_region mc) \<longleftrightarrow>
     45 \<le> j \<and> j \<le> 55 \<and> 45 + PADDING ! nat (j - 45) \<le> i \<and> i \<le> 55 - PADDING ! nat (j - 45)"
proof
  assume "centered_index mc i j \<in> set (vehicle_region mc)"
  then obtain j' i' where ji: "0 \<le> j'" "j' \<le> 10" "PADDING ! nat j' \<le> i'" "i' \<le> 10 - PADDING ! nat j'"
    and eq: "wrap_x (coord_y mc - 50 + j) * 101 + wrap_x (coord_x mc - 50 + i) =
       wrap_x (coord_y mc - 5 + j') * 101 + wrap_x (coord_x mc - 5 + i')"
    unfolding vehicle_region_mem centered_index_eq by blast
  have "nat j' \<le> 10" using ji by simp
  from PADDING_range [OF this] have "0 \<le> PADDING ! nat j'" by blast
  with ji(3,4) have i': "0 \<le> i'" "i' \<le> 10" by linarith+
  have w1: "0 \<le> wrap_x (coord_x mc - 50 + i) \<and> wrap_x (coord_x mc - 50 + i) \<le> 100"
    by (rule wrap_x_range) (use c ij in linarith)+
  have w2: "0 \<le> wrap_x (coord_x mc - 5 + i') \<and> wrap_x (coord_x mc - 5 + i') \<le> 100"
    by (rule wrap_x_range) (use c i' in linarith)+
  have wy: "wrap_x (coord_y mc - 50 + j) = wrap_x (coord_y mc - 5 + j')"
    by (rule cell_index_y [OF _ _ _ _ eq]) (use w1 w2 in blast)+
  with eq have wx: "wrap_x (coord_x mc - 50 + i) = wrap_x (coord_x mc - 5 + i')"
    by simp
  have "coord_y mc - 50 + j = coord_y mc - 5 + j'"
    by (rule wrap_x_inj [OF _ _ _ _ _ wy]) (use c ij ji in linarith)+
  moreover have "coord_x mc - 50 + i = coord_x mc - 5 + i'"
    by (rule wrap_x_inj [OF _ _ _ _ _ wx]) (use c ij i' in linarith)+
  ultimately have "j' = j - 45" "i' = i - 45" by simp_all
  with ji show "45 \<le> j \<and> j \<le> 55 \<and> 45 + PADDING ! nat (j - 45) \<le> i \<and> i \<le> 55 - PADDING ! nat (j - 45)"
    by simp
next
  assume "45 \<le> j \<and> j \<le> 55 \<and> 45 + PADDING ! nat (j - 45) \<le> i \<and> i \<le> 55 - PADDING ! nat (j - 45)"
  then have r: "0 \<le> j - 45 \<and> j - 45 \<le> 10 \<and> PADDING ! nat (j - 45) \<le> i - 45
      \<and> i - 45 \<le> 10 - PADDING ! nat (j - 45)"
    by linarith
  have e: "coord_y mc - 5 + (j - 45) = coord_y mc - 50 + j"
    "coord_x mc - 5 + (i - 45) = coord_x mc - 50 + i" by linarith+
  have "centered_index mc i j =
          wrap_x (coord_y mc - 5 + (j - 45)) * 101 + wrap_x (coord_x mc - 5 + (i - 45))"
    by (simp only: centered_index_eq e)
  with r show "centered_index mc i j \<in> set (vehicle_region mc)"
    unfolding vehicle_region_mem by blast
qed

section \<open>Translation coverage where the single wrap suffices\<close>

text \<open>
  When \<open>centre + shift \<ge> -(E/2 + 1)\<close> on each axis, every coordinate of the two reset
  blocks is within one grid width of the buffer and the translation does what its
  contract asks: in the window centred on the vehicle, the cell \<open>(i, j)\<close> of the new map
  is the cell \<open>(i + dx, j + dy)\<close> of the old one when that lies in the old window, and
  neutral otherwise.
\<close>

lemma wrap_x_mod: "- 101 \<le> u \<Longrightarrow> u \<le> 201 \<Longrightarrow> wrap_x u = u mod 101"
proof -
  assume u: "- 101 \<le> u" "u \<le> 201"
  consider "u < 0" | "0 \<le> u \<and> u < 101" | "101 \<le> u" by linarith
  then show ?thesis
  proof cases
    case 1
    then have "wrap_x u = u + 101" by (simp add: wrap_x_cases)
    moreover have "(u + 101) mod 101 = u + 101" using 1 u by (intro mod_pos_pos_trivial) simp_all
    moreover have "(u + 101) mod 101 = u mod 101" by simp
    ultimately show ?thesis by simp
  next
    case 2
    then show ?thesis by (simp add: wrap_x_cases)
  next
    case 3
    then have "wrap_x u = u - 101" by (simp add: wrap_x_cases)
    moreover have "(u - 101) mod 101 = u - 101" using 3 u by (intro mod_pos_pos_trivial) simp_all
    moreover have "(u - 101) mod 101 = u mod 101" by simp
    ultimately show ?thesis by simp
  qed
qed

lemma dvd_101_small:
  fixes u :: int
  assumes "101 dvd u" "- 100 \<le> u" "u \<le> 201"
  shows "u = 0 \<or> u = 101"
proof -
  from assms(1) obtain k where k: "u = 101 * k" by (auto simp: dvd_def)
  with assms(2,3) have "0 \<le> k \<and> k \<le> 1" by linarith
  then have "k = 0 \<or> k = 1" by linarith
  with k show ?thesis by auto
qed

lemma window_column_after_shift:
  assumes c: "0 \<le> c" "c \<le> 100" and i: "0 \<le> i" "i \<le> 100" and d: "- 100 \<le> d" "d \<le> 100"
  shows "wrap_x (wrap_x (c + d) - 50 + i) = (c - 50 + (i + d)) mod 101"
proof -
  have w: "wrap_x (c + d) = (c + d) mod 101" using c d by (intro wrap_x_mod) linarith+
  have m: "0 \<le> (c + d) mod 101" "(c + d) mod 101 < 101" by simp_all
  have "wrap_x ((c + d) mod 101 - 50 + i) = ((c + d) mod 101 - 50 + i) mod 101"
    by (rule wrap_x_mod) (use m i in linarith)+
  then have "wrap_x (wrap_x (c + d) - 50 + i) = ((c + d) mod 101 - 50 + i) mod 101"
    by (simp only: w)
  also have "\<dots> = ((c + d) mod 101 + (i - 50)) mod 101" by (simp add: algebra_simps)
  also have "\<dots> = ((c + d) + (i - 50)) mod 101" by (rule mod_add_left_eq)
  also have "(c + d) + (i - 50) = c - 50 + (i + d)" by simp
  finally show ?thesis .
qed

lemma new_cell_in_band:
  assumes c: "0 \<le> c" "c \<le> 100" and i: "0 \<le> i" "i \<le> 100" and d: "- 100 \<le> d" "d \<le> 100"
    and safe: "- 51 \<le> c + d"
  shows "in_band (c - 50) d (wrap_x (wrap_x (c + d) - 50 + i)) \<longleftrightarrow> \<not> (0 \<le> i + d \<and> i + d \<le> 100)"
proof -
  let ?X = "c - 50 + (i + d)"
  have x: "wrap_x (wrap_x (c + d) - 50 + i) = ?X mod 101"
    by (rule window_column_after_shift [OF c i d])
  have band: "in_band (c - 50) d (?X mod 101) \<longleftrightarrow>
      (\<exists>t. band_start (c - 50) d \<le> t \<and> t < band_end (c - 50) d \<and> 101 dvd (?X - t))"
  proof -
    have "wrap_x t = ?X mod 101 \<longleftrightarrow> 101 dvd (?X - t)"
      if "band_start (c - 50) d \<le> t" "t < band_end (c - 50) d" for t
    proof -
      have "- 101 \<le> t \<and> t \<le> 201"
        using band_bounds [OF that] c d safe by linarith
      then have "wrap_x t = t mod 101" by (intro wrap_x_mod) simp_all
      then have "wrap_x t = ?X mod 101 \<longleftrightarrow> ?X mod 101 = t mod 101" by auto
      then show ?thesis by (simp only: mod_eq_dvd_iff)
    qed
    then show ?thesis unfolding in_band_iff by blast
  qed
  show ?thesis
  proof (cases "d \<ge> 0")
    case True
    then have b: "band_start (c - 50) d = c - 50" "band_end (c - 50) d = c - 50 + d"
      by (simp_all add: band_start_def band_end_def)
    have "(\<exists>t. c - 50 \<le> t \<and> t < c - 50 + d \<and> 101 dvd (?X - t)) \<longleftrightarrow> 100 < i + d"
    proof
      assume "\<exists>t. c - 50 \<le> t \<and> t < c - 50 + d \<and> 101 dvd (?X - t)"
      then obtain t where t: "c - 50 \<le> t" "t < c - 50 + d" "101 dvd (?X - t)" by blast
      have "?X - t = 0 \<or> ?X - t = 101"
        by (rule dvd_101_small [OF t(3)]) (use t i d in linarith)+
      with t i show "100 < i + d" by linarith
    next
      assume "100 < i + d"
      then have "c - 50 \<le> ?X - 101 \<and> ?X - 101 < c - 50 + d \<and> 101 dvd (?X - (?X - 101))"
        using i by simp
      then show "\<exists>t. c - 50 \<le> t \<and> t < c - 50 + d \<and> 101 dvd (?X - t)" by blast
    qed
    then show ?thesis unfolding x band b using True i by auto
  next
    case False
    then have b: "band_start (c - 50) d = c - 50 + d" "band_end (c - 50) d = c - 50"
      by (simp_all add: band_start_def band_end_def)
    have "(\<exists>t. c - 50 + d \<le> t \<and> t < c - 50 \<and> 101 dvd (?X - t)) \<longleftrightarrow> i + d < 0"
    proof
      assume "\<exists>t. c - 50 + d \<le> t \<and> t < c - 50 \<and> 101 dvd (?X - t)"
      then obtain t where t: "c - 50 + d \<le> t" "t < c - 50" "101 dvd (?X - t)" by blast
      have "?X - t = 0 \<or> ?X - t = 101"
        by (rule dvd_101_small [OF t(3)]) (use t i d in linarith)+
      with t i show "i + d < 0" by linarith
    next
      assume "i + d < 0"
      then have "c - 50 + d \<le> ?X \<and> ?X < c - 50 \<and> 101 dvd (?X - ?X)"
        using i by simp
      then show "\<exists>t. c - 50 + d \<le> t \<and> t < c - 50 \<and> 101 dvd (?X - t)" by blast
    qed
    then show ?thesis unfolding x band b using False i by auto
  qed
qed

lemma kept_cell_column:
  assumes c: "0 \<le> c" "c \<le> 100" and i: "0 \<le> i" "i \<le> 100" and d: "- 100 \<le> d" "d \<le> 100"
    and k: "0 \<le> i + d" "i + d \<le> 100"
  shows "wrap_x (wrap_x (c + d) - 50 + i) = wrap_x (c - 50 + (i + d))"
proof -
  have "wrap_x (c - 50 + (i + d)) = (c - 50 + (i + d)) mod 101"
    using c k by (intro wrap_x_mod) linarith+
  then show ?thesis using window_column_after_shift [OF c i d] by simp
qed

lemma translation_coverage_window:
  assumes b: "buffer_sized s" and c: "center_in_range s"
    and dx: "- 100 \<le> dx" "dx \<le> 100" and dy: "- 100 \<le> dy" "dy \<le> 100"
    and safe: "- 51 \<le> coord_x (map_center_pixel s) + dx" "- 51 \<le> coord_y (map_center_pixel s) + dy"
  shows "\<exists>s'. app_slam_private_translateGlobalMap dx dy s = Inr s'
    \<and> (\<forall>i j. 0 \<le> i \<and> i \<le> 100 \<and> 0 \<le> j \<and> j \<le> 100 \<longrightarrow>
          data s' ! nat (centered_index (map_center_pixel s') i j) =
            (if 0 \<le> i + dx \<and> i + dx \<le> 100 \<and> 0 \<le> j + dy \<and> j + dy \<le> 100
             then data s ! nat (centered_index (map_center_pixel s) (i + dx) (j + dy))
             else GRID_CELL_NEUTRAL))"
proof -
  let ?cx = "coord_x (map_center_pixel s)" and ?cy = "coord_y (map_center_pixel s)"
  have cr: "0 \<le> ?cx" "?cx \<le> 100" "0 \<le> ?cy" "?cy \<le> 100"
    using c by (simp_all add: center_in_range_iff)
  have "\<exists>s'. app_slam_private_translateGlobalMap dx dy s = Inr s' \<and> length (data s') = 10201
    \<and> map_offset_mm s' = map_offset_mm s
    \<and> coord_x (map_center_pixel s') = wrap_x (?cx + dx)
    \<and> coord_y (map_center_pixel s') = wrap_x (?cy + dy)
    \<and> (\<forall>x y. 0 \<le> x \<and> x \<le> 100 \<and> 0 \<le> y \<and> y \<le> 100 \<longrightarrow>
         data s' ! nat (y * 101 + x) =
           (if in_band (?cx - 50) dx x \<or> in_band (?cy - 50) dy y
            then 0 else data s ! nat (y * 101 + x)))"
    by (rule translate_total [OF b]) (use cr dx dy safe in linarith)+
  then obtain s' where t: "app_slam_private_translateGlobalMap dx dy s = Inr s'"
    and cx': "coord_x (map_center_pixel s') = wrap_x (?cx + dx)"
    and cy': "coord_y (map_center_pixel s') = wrap_x (?cy + dy)"
    and nth: "\<And>x y. 0 \<le> x \<and> x \<le> 100 \<and> 0 \<le> y \<and> y \<le> 100 \<Longrightarrow>
         data s' ! nat (y * 101 + x) =
           (if in_band (?cx - 50) dx x \<or> in_band (?cy - 50) dy y
            then 0 else data s ! nat (y * 101 + x))"
    by blast
  have "data s' ! nat (centered_index (map_center_pixel s') i j) =
            (if 0 \<le> i + dx \<and> i + dx \<le> 100 \<and> 0 \<le> j + dy \<and> j + dy \<le> 100
             then data s ! nat (centered_index (map_center_pixel s) (i + dx) (j + dy))
             else GRID_CELL_NEUTRAL)"
    if ij: "0 \<le> i \<and> i \<le> 100 \<and> 0 \<le> j \<and> j \<le> 100" for i j
  proof -
    let ?x = "wrap_x (wrap_x (?cx + dx) - 50 + i)" and ?y = "wrap_x (wrap_x (?cy + dy) - 50 + j)"
    have i: "0 \<le> i" "i \<le> 100" and j: "0 \<le> j" "j \<le> 100" using ij by simp_all
    have xm: "?x = (?cx - 50 + (i + dx)) mod 101"
      by (rule window_column_after_shift [OF cr(1,2) i dx])
    have ym: "?y = (?cy - 50 + (j + dy)) mod 101"
      by (rule window_column_after_shift [OF cr(3,4) j dy])
    have "(?cx - 50 + (i + dx)) mod 101 < 101" "(?cy - 50 + (j + dy)) mod 101 < 101"
      by (rule pos_mod_bound, simp)+
    moreover have "0 \<le> (?cx - 50 + (i + dx)) mod 101" "0 \<le> (?cy - 50 + (j + dy)) mod 101"
      by (rule pos_mod_sign, simp)+
    ultimately have xy: "0 \<le> ?x \<and> ?x \<le> 100 \<and> 0 \<le> ?y \<and> ?y \<le> 100"
      unfolding xm ym by linarith
    have idx: "centered_index (map_center_pixel s') i j = ?y * 101 + ?x"
      by (simp only: centered_index_eq cx' cy')
    have bx: "in_band (?cx - 50) dx ?x \<longleftrightarrow> \<not> (0 \<le> i + dx \<and> i + dx \<le> 100)"
      by (rule new_cell_in_band [OF cr(1,2) i dx safe(1)])
    have by': "in_band (?cy - 50) dy ?y \<longleftrightarrow> \<not> (0 \<le> j + dy \<and> j + dy \<le> 100)"
      by (rule new_cell_in_band [OF cr(3,4) j dy safe(2)])
    show ?thesis
    proof (cases "0 \<le> i + dx \<and> i + dx \<le> 100 \<and> 0 \<le> j + dy \<and> j + dy \<le> 100")
      case True
      then have k: "0 \<le> i + dx" "i + dx \<le> 100" "0 \<le> j + dy" "j + dy \<le> 100" by simp_all
      have "?x = wrap_x (?cx - 50 + (i + dx))"
        by (rule kept_cell_column [OF cr(1,2) i dx k(1,2)])
      moreover have "?y = wrap_x (?cy - 50 + (j + dy))"
        by (rule kept_cell_column [OF cr(3,4) j dy k(3,4)])
      ultimately have "centered_index (map_center_pixel s) (i + dx) (j + dy) = ?y * 101 + ?x"
        by (simp only: centered_index_eq)
      moreover have "data s' ! nat (?y * 101 + ?x) = data s ! nat (?y * 101 + ?x)"
        using nth [OF xy] bx by' True by simp
      ultimately have "data s' ! nat (centered_index (map_center_pixel s') i j) =
          data s ! nat (centered_index (map_center_pixel s) (i + dx) (j + dy))"
        by (simp only: idx)
      with True show ?thesis by (simp only: simp_thms if_True)
    next
      case False
      then have "in_band (?cx - 50) dx ?x \<or> in_band (?cy - 50) dy ?y"
        using bx by' by blast
      then have "data s' ! nat (?y * 101 + ?x) = 0"
        using nth [OF xy] by simp
      then have "data s' ! nat (centered_index (map_center_pixel s') i j) = GRID_CELL_NEUTRAL"
        by (simp only: idx GRID_CELL_NEUTRAL_def)
      with False show ?thesis by (simp only: simp_thms if_False)
    qed
  qed
  with t show ?thesis by blast
qed

lemma in_band_one_column: "0 \<le> x \<Longrightarrow> x \<le> 100 \<Longrightarrow> in_band 0 1 x \<longleftrightarrow> x = 0"
proof -
  have "band_start 0 1 = 0" "band_end 0 1 = 1" by (simp_all add: band_start_def band_end_def)
  moreover have "(\<exists>i::int. 0 \<le> i \<and> i < 1 \<and> wrap_x i = x) \<longleftrightarrow> x = 0"
  proof
    assume "\<exists>i::int. 0 \<le> i \<and> i < 1 \<and> wrap_x i = x"
    then obtain i :: int where "0 \<le> i" "i < 1" "wrap_x i = x" by blast
    then have "i = 0" by linarith
    with \<open>wrap_x i = x\<close> show "x = 0" by (simp add: wrap_x_cases)
  next
    assume "x = 0"
    then have "(0::int) \<le> 0 \<and> (0::int) < 1 \<and> wrap_x 0 = x" by (simp add: wrap_x_cases)
    then show "\<exists>i::int. 0 \<le> i \<and> i < 1 \<and> wrap_x i = x" by blast
  qed
  ultimately show ?thesis unfolding in_band_iff by simp
qed

lemma in_band_no_shift: "\<not> in_band c00 0 y"
  by (simp add: in_band_def band_start_def band_end_def)

lemma translation_one_column:
  assumes b: "buffer_sized s"
    and c: "map_center_pixel s = \<lparr> coord_x = 50, coord_y = 50 \<rparr>"
  shows "\<exists>s'. app_slam_private_translateGlobalMap 1 0 s = Inr s'
    \<and> map_center_pixel s' = \<lparr> coord_x = 51, coord_y = 50 \<rparr>
    \<and> (\<forall>x y. 0 \<le> x \<and> x \<le> 100 \<and> 0 \<le> y \<and> y \<le> 100 \<longrightarrow>
          data s' ! nat (memory_index x y) =
            (if x = 0 then GRID_CELL_NEUTRAL else data s ! nat (memory_index x y)))"
proof -
  have "\<exists>s'. app_slam_private_translateGlobalMap 1 0 s = Inr s' \<and> length (data s') = 10201
    \<and> map_offset_mm s' = map_offset_mm s
    \<and> coord_x (map_center_pixel s') = wrap_x (coord_x (map_center_pixel s) + 1)
    \<and> coord_y (map_center_pixel s') = wrap_x (coord_y (map_center_pixel s) + 0)
    \<and> (\<forall>x y. 0 \<le> x \<and> x \<le> 100 \<and> 0 \<le> y \<and> y \<le> 100 \<longrightarrow>
         data s' ! nat (y * 101 + x) =
           (if in_band (coord_x (map_center_pixel s) - 50) 1 x
               \<or> in_band (coord_y (map_center_pixel s) - 50) 0 y
            then 0 else data s ! nat (y * 101 + x)))"
    by (rule translate_total [OF b]) (simp_all add: c)
  then obtain s' where t: "app_slam_private_translateGlobalMap 1 0 s = Inr s'"
    and cx: "coord_x (map_center_pixel s') = 51" and cy: "coord_y (map_center_pixel s') = 50"
    and nth: "\<And>x y. 0 \<le> x \<and> x \<le> 100 \<and> 0 \<le> y \<and> y \<le> 100 \<Longrightarrow>
         data s' ! nat (y * 101 + x) =
           (if in_band 0 1 x \<or> in_band 0 0 y then 0 else data s ! nat (y * 101 + x))"
    by (auto simp: c wrap_x_cases)
  have "map_center_pixel s' = \<lparr> coord_x = 51, coord_y = 50 \<rparr>" using cx cy by simp
  moreover have "data s' ! nat (memory_index x y) =
            (if x = 0 then GRID_CELL_NEUTRAL else data s ! nat (memory_index x y))"
    if xy: "0 \<le> x \<and> x \<le> 100 \<and> 0 \<le> y \<and> y \<le> 100" for x y
    using nth [OF xy] xy
    by (simp add: in_band_one_column in_band_no_shift memory_index_def pixel_constants
        GRID_CELL_NEUTRAL_def)
  ultimately show ?thesis using t by blast
qed

section \<open>The float to pixel conversion\<close>

lemma trunc_toward_zero_bounds:
  "\<bar>real_of_int (trunc_toward_zero q)\<bar> \<le> \<bar>q\<bar>"
  "\<bar>q\<bar> < \<bar>real_of_int (trunc_toward_zero q)\<bar> + 1"
  "0 \<le> q \<Longrightarrow> 0 \<le> trunc_toward_zero q"
  "q \<le> 0 \<Longrightarrow> trunc_toward_zero q \<le> 0"
proof -
  have "\<bar>real_of_int (trunc_toward_zero q)\<bar> \<le> \<bar>q\<bar>
      \<and> \<bar>q\<bar> < \<bar>real_of_int (trunc_toward_zero q)\<bar> + 1"
  proof (cases "0 \<le> q")
    case True
    then have "0 \<le> \<lfloor>q\<rfloor>" by simp
    moreover have "real_of_int \<lfloor>q\<rfloor> \<le> q" "q < real_of_int \<lfloor>q\<rfloor> + 1" by linarith+
    ultimately show ?thesis using True by (simp add: trunc_toward_zero_def)
  next
    case False
    then have "0 \<le> \<lfloor>- q\<rfloor>" by simp
    moreover have "real_of_int \<lfloor>- q\<rfloor> \<le> - q" "- q < real_of_int \<lfloor>- q\<rfloor> + 1" by linarith+
    ultimately show ?thesis using False by (simp add: trunc_toward_zero_def)
  qed
  then show "\<bar>real_of_int (trunc_toward_zero q)\<bar> \<le> \<bar>q\<bar>"
    "\<bar>q\<bar> < \<bar>real_of_int (trunc_toward_zero q)\<bar> + 1" by simp_all
  show "0 \<le> q \<Longrightarrow> 0 \<le> trunc_toward_zero q"
    by (simp add: trunc_toward_zero_def)
  show "q \<le> 0 \<Longrightarrow> trunc_toward_zero q \<le> 0"
  proof -
    assume "q \<le> 0"
    then have "0 \<le> \<lfloor>- q\<rfloor>" by simp
    then show ?thesis using \<open>q \<le> 0\<close> by (simp add: trunc_toward_zero_def)
  qed
qed

lemma mm_to_pixel_truncates:
  assumes "\<bar>binary32 (r / real_of_int GMAP_UNIT_GRID_STEP_SIZE_MM)\<bar> < 2147483648"
  shows "\<exists>p. GMAP_MM_TO_UNIT_PIXEL r = Inr p
    \<and> \<bar>real_of_int p\<bar> \<le> \<bar>binary32 (r / real_of_int GMAP_UNIT_GRID_STEP_SIZE_MM)\<bar>
    \<and> \<bar>binary32 (r / real_of_int GMAP_UNIT_GRID_STEP_SIZE_MM)\<bar> < \<bar>real_of_int p\<bar> + 1
    \<and> (0 \<le> r \<longrightarrow> 0 \<le> p) \<and> (r \<le> 0 \<longrightarrow> p \<le> 0)"
proof -
  let ?q = "binary32 (r / real_of_int GMAP_UNIT_GRID_STEP_SIZE_MM)"
  let ?p = "trunc_toward_zero ?q"
  note B = trunc_toward_zero_bounds [of ?q]
  have "\<bar>real_of_int ?p\<bar> < 2147483648" using B(1) assms by linarith
  then have "\<bar>?p\<bar> < 2147483648" by linarith
  then have "float_to_int32 ?q = Inr ?p"
    by (intro float_to_int32_trunc) simp_all
  then have "GMAP_MM_TO_UNIT_PIXEL r = Inr ?p" by (simp add: GMAP_MM_TO_UNIT_PIXEL_def)
  moreover have "0 \<le> r \<Longrightarrow> 0 \<le> ?p"
    by (rule B(3), rule binary32_nonneg) (simp add: GMAP_UNIT_GRID_STEP_SIZE_MM_def)
  moreover have "r \<le> 0 \<Longrightarrow> ?p \<le> 0"
    by (rule B(4), rule binary32_nonpos) (simp add: GMAP_UNIT_GRID_STEP_SIZE_MM_def)
  ultimately show ?thesis using B(1,2) by blast
qed

lemma mm_to_pixel_whole_bounds:
  assumes "\<bar>n\<bar> \<le> 1000009"
  shows "\<exists>p. GMAP_MM_TO_UNIT_PIXEL (real_of_int n) = Inr p
    \<and> \<bar>p\<bar> * 10 \<le> \<bar>n\<bar> \<and> \<bar>n\<bar> < (\<bar>p\<bar> + 1) * 10
    \<and> (0 \<le> n \<longrightarrow> 0 \<le> p) \<and> (n \<le> 0 \<longrightarrow> p \<le> 0)"
proof -
  define m where "m = \<bar>n\<bar>"
  have "m = m div 10 * 10 + m mod 10" by simp
  moreover have "0 \<le> m mod 10" "m mod 10 < 10" by simp_all
  ultimately have b: "m div 10 * 10 \<le> m" "m < m div 10 * 10 + 10" by linarith+
  have k: "0 \<le> m div 10" by (simp add: m_def)
  show ?thesis
  proof (cases "0 \<le> n")
    case True
    then have "m = n" by (simp add: m_def)
    with b k show ?thesis
      using True mm_to_pixel_whole [OF assms] by (intro exI [of _ "n div 10"]) simp
  next
    case False
    then have "m = - n" by (simp add: m_def)
    with b k show ?thesis
      using False mm_to_pixel_whole [OF assms] by (intro exI [of _ "- (- n div 10)"]) simp
  qed
qed

lemma half_pixel_axis:
  assumes "binary32 (m + off) = - 5"
  shows "drift_axis m off = Inr (0, - 5)"
proof -
  have "GMAP_UNIT_PIXEL_TO_MM 0 = 0" by (simp add: GMAP_UNIT_PIXEL_TO_MM_def binary32_def)
  then show ?thesis
    unfolding drift_axis_Inr assms using half_pixel by simp
qed

lemma quotient_rounds: "GMAP_MM_TO_UNIT_PIXEL 41943048 = Inr 4194305"
proof -
  let ?x = "41943048 / 10 :: real"
  have "binary32 ?x = real_of_int (round_half_even (?x / 2 powi (22 - 23))) * 2 powi (22 - 23)"
    by (rule binary32_in_binade) simp_all
  moreover have "round_half_even (?x / 2 powi (22 - 23)) = 8388610"
    by (rule round_half_even_near) (simp add: power_int_minus field_simps)
  ultimately have q: "binary32 ?x = 4194305" by (simp add: power_int_minus)
  have "trunc_toward_zero (4194305 :: real) = 4194305"
    using trunc_toward_zero_between [of 4194305 4194305] by simp
  then have "float_to_int32 (binary32 ?x) = Inr 4194305"
    unfolding q using float_to_int32_trunc [of 4194305] by simp
  then show ?thesis
    by (simp add: GMAP_MM_TO_UNIT_PIXEL_def GMAP_UNIT_GRID_STEP_SIZE_MM_def)
qed

section \<open>Drift on one axis and over a tick\<close>













section \<open>Shifts beyond one grid width\<close>














section \<open>The claims about translation, reset, rounding and reachable states\<close>

text \<open>
  C2 (translation coverage), at an input where the code departs from it. The claim asks
  that after \<^verbatim>\<open>app_slam_private_translateGlobalMap(dx, dy)\<close>, for every centre in
  \<open>[0, E]\<close> and every shift of at most \<open>E\<close> pixels, the newly exposed band is neutral
  and all other cells are unchanged. The map reached from initialisation by the shift
  \<open>(-50, 0)\<close> has its centre at \<open>(0, 50)\<close>; there the shift \<open>(-52, 0)\<close>, which is inside
  the function's documented assumption \<open>dx, dy \<in> [-EDGE, EDGE]\<close>, makes the column reset
  start at \<open>i = -102\<close>, whose single wrap is \<open>-1\<close>: the first store is
  \<^verbatim>\<open>mdata[-1]\<close>, outside the buffer.
\<close>

theorem translate_negative_shift_out_of_bounds:
  "reachable (projr (app_slam_private_translateGlobalMap (- 50) 0 app_slam_init))
   \<and> coord_x (map_center_pixel (projr (app_slam_private_translateGlobalMap (- 50) 0 app_slam_init))) = 0
   \<and> coord_y (map_center_pixel (projr (app_slam_private_translateGlobalMap (- 50) 0 app_slam_init))) = 50
   \<and> \<bar>- 52\<bar> \<le> GMAP_GRID_EDGE_SIZE_PIXEL
   \<and> app_slam_private_translateGlobalMap (- 52) 0
        (projr (app_slam_private_translateGlobalMap (- 50) 0 app_slam_init)) = Inl OutOfBounds"
proof -
  have "app_slam_private_translateGlobalMap (- 52) 0
        (projr (app_slam_private_translateGlobalMap (- 50) 0 app_slam_init)) = Inl OutOfBounds"
    by (rule translate_negative_shift_faults) (simp_all add: edge_state)
  then show ?thesis using edge_state by (simp add: pixel_constants)
qed

text \<open>
  C3 (translation with zero shift). For every map whose centre index lies in \<open>[0, E]\<close> on
  both axes, \<^verbatim>\<open>app_slam_private_translateGlobalMap(0, 0)\<close> completes and leaves the whole
  map as it was: every cell of the buffer, both components of the centre index (and the
  offset).
\<close>

theorem translate_zero_shift_identity:
  assumes "center_in_range gMap"
  shows "app_slam_private_translateGlobalMap 0 0 gMap = Inr gMap"
proof -
  have "wrap_x (coord_x (map_center_pixel gMap) + 0) = coord_x (map_center_pixel gMap)"
    "wrap_x (coord_y (map_center_pixel gMap) + 0) = coord_y (map_center_pixel gMap)"
    using assms by (simp_all add: center_in_range_iff wrap_x_cases)
  then show ?thesis
    unfolding translate_unfold by (simp add: reset_vertical_columns_eq reset_horizontal_rows_eq)
qed

theorem translate_zero_shift_identity_witness:
  "center_in_range app_slam_init
   \<and> app_slam_private_translateGlobalMap 0 0 app_slam_init = Inr app_slam_init"
  using translate_zero_shift_identity [of app_slam_init]
  by (simp add: center_in_range_iff reset_eq app_slam_init_eq)




text \<open>
  C5 (truncation toward zero). \<^verbatim>\<open>GMAP_MM_TO_UNIT_PIXEL\<close> divides in binary32 and casts
  the quotient to \<^verbatim>\<open>int32_t\<close>. For every displacement \<open>r\<close> whose binary32 quotient \<open>q\<close>
  by the grid step fits an \<^verbatim>\<open>int32_t\<close>, the result is the integer \<open>p\<close> with
  \<open>|p| \<le> |q| < |p| + 1\<close> and the sign of \<open>r\<close>: the quotient is rounded toward zero. For
  a displacement that is a whole number \<open>n\<close> of millimetres with \<open>|n| \<le> 1000009\<close> the
  rounding of the division does not show: \<open>|p| * 10 \<le> |n| < (|p| + 1) * 10\<close>. It does
  for larger values: \<open>41943048\<close> mm gives \<open>4194305\<close> pixels, the quotient \<open>4194304.8\<close>
  being rounded to \<open>4194305\<close> before the cast. In particular a combined displacement of
  \<open>-5.0\<close> mm, with \<^verbatim>\<open>GMAP_UNIT_GRID_STEP_SIZE_MM = 10\<close>, gives the pixel shift \<open>0\<close>,
  where the floor would be \<open>-1\<close>; and a tick whose requested displacement plus stored
  leftover is, in binary32, \<open>-5.0\<close> mm on both axes completes with the centre index
  unchanged and the leftover \<open>(-5.0, -5.0)\<close> stored in \<^verbatim>\<open>map_offset_mm\<close>.
\<close>

theorem truncation_toward_zero:
  assumes "\<bar>binary32 (r / real_of_int GMAP_UNIT_GRID_STEP_SIZE_MM)\<bar> < 2147483648"
    and "\<bar>n\<bar> \<le> 1000009"
    and "buffer_sized gMap" and "center_in_range gMap"
    and "binary32 (mock_dx_mm + coord_x (map_offset_mm gMap)) = - 5"
    and "binary32 (mock_dy_mm + coord_y (map_offset_mm gMap)) = - 5"
  shows "(\<exists>p. GMAP_MM_TO_UNIT_PIXEL r = Inr p
            \<and> \<bar>real_of_int p\<bar> \<le> \<bar>binary32 (r / real_of_int GMAP_UNIT_GRID_STEP_SIZE_MM)\<bar>
            \<and> \<bar>binary32 (r / real_of_int GMAP_UNIT_GRID_STEP_SIZE_MM)\<bar> < \<bar>real_of_int p\<bar> + 1
            \<and> (0 \<le> r \<longrightarrow> 0 \<le> p) \<and> (r \<le> 0 \<longrightarrow> p \<le> 0))
    \<and> (\<exists>p. GMAP_MM_TO_UNIT_PIXEL (real_of_int n) = Inr p
            \<and> \<bar>p\<bar> * GMAP_UNIT_GRID_STEP_SIZE_MM \<le> \<bar>n\<bar>
            \<and> \<bar>n\<bar> < (\<bar>p\<bar> + 1) * GMAP_UNIT_GRID_STEP_SIZE_MM
            \<and> (0 \<le> n \<longrightarrow> 0 \<le> p) \<and> (n \<le> 0 \<longrightarrow> p \<le> 0))
    \<and> GMAP_MM_TO_UNIT_PIXEL 41943048 = Inr 4194305
    \<and> GMAP_MM_TO_UNIT_PIXEL (- 5) = Inr 0
    \<and> \<lfloor>(- 5 :: real) / real_of_int GMAP_UNIT_GRID_STEP_SIZE_MM\<rfloor> = - 1
    \<and> (\<exists>gMap'. globalMapUpdate_from mock_dx_mm mock_dy_mm gMap = Inr gMap'
          \<and> map_center_pixel gMap' = map_center_pixel gMap
          \<and> map_offset_mm gMap' = \<lparr> coord_x = - 5, coord_y = - 5 \<rparr>)"
proof -
  have "\<exists>s'. globalMapUpdate_from mock_dx_mm mock_dy_mm gMap = Inr s' \<and> length (data s') = 10201
    \<and> coord_x (map_center_pixel s') = wrap_x (coord_x (map_center_pixel gMap) + 0)
    \<and> coord_y (map_center_pixel s') = wrap_x (coord_y (map_center_pixel gMap) + 0)
    \<and> map_offset_mm s' = \<lparr> coord_x = - 5, coord_y = - 5 \<rparr>"
    using assms(4)
    by (intro tick_by_axis [OF assms(3,4) half_pixel_axis [OF assms(5)] half_pixel_axis [OF assms(6)]])
      (simp_all add: center_in_range_iff)
  then obtain s' where s': "globalMapUpdate_from mock_dx_mm mock_dy_mm gMap = Inr s'"
    and cx: "coord_x (map_center_pixel s') = wrap_x (coord_x (map_center_pixel gMap))"
    and cy: "coord_y (map_center_pixel s') = wrap_x (coord_y (map_center_pixel gMap))"
    and off: "map_offset_mm s' = \<lparr> coord_x = - 5, coord_y = - 5 \<rparr>"
    by auto
  have "coord_x (map_center_pixel s') = coord_x (map_center_pixel gMap)"
    "coord_y (map_center_pixel s') = coord_y (map_center_pixel gMap)"
    using assms(4) cx cy by (simp_all add: center_in_range_iff wrap_x_cases)
  then have "map_center_pixel s' = map_center_pixel gMap" by simp
  with s' off have "\<exists>gMap'. globalMapUpdate_from mock_dx_mm mock_dy_mm gMap = Inr gMap'
          \<and> map_center_pixel gMap' = map_center_pixel gMap
          \<and> map_offset_mm gMap' = \<lparr> coord_x = - 5, coord_y = - 5 \<rparr>" by blast
  moreover have "\<lfloor>(- 5 :: real) / real_of_int GMAP_UNIT_GRID_STEP_SIZE_MM\<rfloor> = - 1"
    by (simp add: GMAP_UNIT_GRID_STEP_SIZE_MM_def)
  moreover have "\<exists>p. GMAP_MM_TO_UNIT_PIXEL (real_of_int n) = Inr p
            \<and> \<bar>p\<bar> * GMAP_UNIT_GRID_STEP_SIZE_MM \<le> \<bar>n\<bar>
            \<and> \<bar>n\<bar> < (\<bar>p\<bar> + 1) * GMAP_UNIT_GRID_STEP_SIZE_MM
            \<and> (0 \<le> n \<longrightarrow> 0 \<le> p) \<and> (n \<le> 0 \<longrightarrow> p \<le> 0)"
    using mm_to_pixel_whole_bounds [OF assms(2)] by (simp only: GMAP_UNIT_GRID_STEP_SIZE_MM_def)
  ultimately show ?thesis
    using half_pixel(2) quotient_rounds mm_to_pixel_truncates [OF assms(1)] by blast
qed

theorem truncation_toward_zero_witness:
  "\<bar>binary32 (- 15 / real_of_int GMAP_UNIT_GRID_STEP_SIZE_MM)\<bar> < 2147483648
   \<and> \<bar>- 25 :: int\<bar> \<le> 1000009
   \<and> buffer_sized app_slam_init \<and> center_in_range app_slam_init
   \<and> binary32 (- 5 + coord_x (map_offset_mm app_slam_init)) = - 5
   \<and> binary32 (- 5 + coord_y (map_offset_mm app_slam_init)) = - 5
   \<and> GMAP_MM_TO_UNIT_PIXEL (- 15) = Inr (- 1)
   \<and> GMAP_MM_TO_UNIT_PIXEL (- 25) = Inr (- 2)
   \<and> GMAP_MM_TO_UNIT_PIXEL (- 5) = Inr 0
   \<and> \<not> isl (globalMapUpdate_from (- 5) (- 5) app_slam_init)
   \<and> map_offset_mm (projr (globalMapUpdate_from (- 5) (- 5) app_slam_init)) =
       \<lparr> coord_x = - 5, coord_y = - 5 \<rparr>
   \<and> map_center_pixel (projr (globalMapUpdate_from (- 5) (- 5) app_slam_init)) =
       \<lparr> coord_x = 50, coord_y = 50 \<rparr>"
proof -
  have q: "binary32 (- 15 / real_of_int GMAP_UNIT_GRID_STEP_SIZE_MM) = - 3 / 2"
    using binary32_exact [of "- 3 / 2" "- 3" "- 1"] by (simp add: GMAP_UNIT_GRID_STEP_SIZE_MM_def)
  then have r: "\<bar>binary32 (- 15 / real_of_int GMAP_UNIT_GRID_STEP_SIZE_MM)\<bar> < 2147483648" by simp
  have n: "\<bar>- 25 :: int\<bar> \<le> 1000009" by simp
  have h: "binary32 (- 5 + coord_x (map_offset_mm app_slam_init)) = - 5"
    "binary32 (- 5 + coord_y (map_offset_mm app_slam_init)) = - 5"
    using half_pixel(1) by (simp_all add: init_facts)
  note T = truncation_toward_zero [OF r n init_facts(1,2) h]
  from T obtain gMap' where
    "globalMapUpdate_from (- 5) (- 5) app_slam_init = Inr gMap'"
    "map_center_pixel gMap' = map_center_pixel app_slam_init"
    "map_offset_mm gMap' = \<lparr> coord_x = - 5, coord_y = - 5 \<rparr>"
    by blast
  moreover from T obtain p where "GMAP_MM_TO_UNIT_PIXEL (- 15) = Inr p"
    "\<bar>real_of_int p\<bar> \<le> 3 / 2" "3 / 2 < \<bar>real_of_int p\<bar> + 1" "p \<le> 0"
    unfolding q by auto
  then have "GMAP_MM_TO_UNIT_PIXEL (- 15) = Inr (- 1)" by auto
  moreover from T obtain p' where "GMAP_MM_TO_UNIT_PIXEL (real_of_int (- 25)) = Inr p'"
    "\<bar>p'\<bar> * 10 \<le> 25" "25 < (\<bar>p'\<bar> + 1) * 10" "p' \<le> 0"
    unfolding GMAP_UNIT_GRID_STEP_SIZE_MM_def by auto
  then have "GMAP_MM_TO_UNIT_PIXEL (- 25) = Inr (- 2)" by auto
  ultimately show ?thesis using init_facts half_pixel r n h by simp
qed




text \<open>
  C7 (symmetry of the footprint mask). For every map with a full buffer and a centre index
  in \<open>[0, E]\<^sup>2\<close>, \<^verbatim>\<open>app_slam_private_clearVehicleRegion\<close> completes and overwrites with
  the visited value exactly the cells whose index is in \<open>vehicle_region\<close>, leaving the
  others as they were. In the coordinates of the window centred on the vehicle (column
  \<open>i\<close> and row \<open>j\<close> in \<open>0 .. E\<close>, addressed through the wrap, the centre index being the
  cell \<open>(E/2, E/2)\<close>), that set is symmetric about the vertical axis (\<open>i \<mapsto> E - i\<close>) and
  about the horizontal axis (\<open>j \<mapsto> E - j\<close>) through the centre index.
\<close>

theorem footprint_mask_symmetric:
  assumes "buffer_sized gMap" and "center_in_range gMap"
    and "0 \<le> i" and "i \<le> GMAP_GRID_EDGE_SIZE_PIXEL"
    and "0 \<le> j" and "j \<le> GMAP_GRID_EDGE_SIZE_PIXEL"
  shows "(\<exists>mdata. app_slam_private_clearVehicleRegion gMap = Inr (gMap \<lparr> data := mdata \<rparr>)
            \<and> length mdata = length (data gMap)
            \<and> (\<forall>n < length (data gMap). mdata ! n =
                  (if int n \<in> set (vehicle_region (map_center_pixel gMap))
                   then GRID_CELL_VISITED else data gMap ! n)))
    \<and> centered_index (map_center_pixel gMap)
         GMAP_DEFAULT_CENTRAL_X_INDEX_PIXEL GMAP_DEFAULT_CENTRAL_Y_INDEX_PIXEL =
       memory_index (coord_x (map_center_pixel gMap)) (coord_y (map_center_pixel gMap))
    \<and> (centered_index (map_center_pixel gMap) i j \<in> set (vehicle_region (map_center_pixel gMap))
         \<longleftrightarrow> centered_index (map_center_pixel gMap) (GMAP_GRID_EDGE_SIZE_PIXEL - i) j
               \<in> set (vehicle_region (map_center_pixel gMap)))
    \<and> (centered_index (map_center_pixel gMap) i j \<in> set (vehicle_region (map_center_pixel gMap))
         \<longleftrightarrow> centered_index (map_center_pixel gMap) i (GMAP_GRID_EDGE_SIZE_PIXEL - j)
               \<in> set (vehicle_region (map_center_pixel gMap)))"
proof -
  let ?mc = "map_center_pixel gMap"
  have c: "0 \<le> coord_x ?mc" "coord_x ?mc \<le> 100" "0 \<le> coord_y ?mc" "coord_y ?mc \<le> 100"
    using assms(2) by (simp_all add: center_in_range_iff)
  have ij: "0 \<le> i" "i \<le> 100" "0 \<le> j" "j \<le> 100"
    using assms(3-6) by (simp_all add: pixel_constants)
  have len: "length (data gMap) = 10201" using assms(1) by (simp add: buffer_sized_iff)
  have "\<exists>d. app_slam_private_clearVehicleRegion gMap = Inr (gMap \<lparr> data := d \<rparr>) \<and> length d = 10201
    \<and> (\<forall>n < 10201. d ! n =
          (if int n \<in> set (vehicle_region ?mc) then GRID_CELL_VISITED else data gMap ! n))"
    by (rule clearVehicleRegion_total [OF len]) (use c in linarith)+
  then have run: "\<exists>mdata. app_slam_private_clearVehicleRegion gMap = Inr (gMap \<lparr> data := mdata \<rparr>)
            \<and> length mdata = length (data gMap)
            \<and> (\<forall>n < length (data gMap). mdata ! n =
                  (if int n \<in> set (vehicle_region ?mc) then GRID_CELL_VISITED else data gMap ! n))"
    unfolding len by blast
  have centre: "centered_index ?mc GMAP_DEFAULT_CENTRAL_X_INDEX_PIXEL
      GMAP_DEFAULT_CENTRAL_Y_INDEX_PIXEL = memory_index (coord_x ?mc) (coord_y ?mc)"
    using c by (simp add: centered_index_eq memory_index_def pixel_constants wrap_x_cases)
  have w: "centered_index ?mc i j \<in> set (vehicle_region ?mc) \<longleftrightarrow>
      45 \<le> j \<and> j \<le> 55 \<and> 45 + PADDING ! nat (j - 45) \<le> i \<and> i \<le> 55 - PADDING ! nat (j - 45)"
    by (rule footprint_window [OF c ij])
  have wi: "centered_index ?mc (100 - i) j \<in> set (vehicle_region ?mc) \<longleftrightarrow>
      45 \<le> j \<and> j \<le> 55 \<and> 45 + PADDING ! nat (j - 45) \<le> 100 - i
        \<and> 100 - i \<le> 55 - PADDING ! nat (j - 45)"
    by (rule footprint_window [OF c _ _ ij(3,4)]) (use ij in linarith)+
  have wj: "centered_index ?mc i (100 - j) \<in> set (vehicle_region ?mc) \<longleftrightarrow>
      45 \<le> 100 - j \<and> 100 - j \<le> 55 \<and> 45 + PADDING ! nat (100 - j - 45) \<le> i
        \<and> i \<le> 55 - PADDING ! nat (100 - j - 45)"
    by (rule footprint_window [OF c ij(1,2)]) (use ij in linarith)+
  have pad: "PADDING ! nat (100 - j - 45) = PADDING ! nat (j - 45)" if "45 \<le> j" "j \<le> 55"
  proof -
    have "nat (j - 45) \<le> 10" using that by simp
    from PADDING_symmetric [OF this] have "PADDING ! (10 - nat (j - 45)) = PADDING ! nat (j - 45)" .
    moreover have "nat (100 - j - 45) = 10 - nat (j - 45)" using that by simp
    ultimately show ?thesis by simp
  qed
  have "centered_index ?mc i j \<in> set (vehicle_region ?mc)
      \<longleftrightarrow> centered_index ?mc (100 - i) j \<in> set (vehicle_region ?mc)"
    unfolding w wi by linarith
  moreover have "centered_index ?mc i j \<in> set (vehicle_region ?mc)
      \<longleftrightarrow> centered_index ?mc i (100 - j) \<in> set (vehicle_region ?mc)"
  proof (cases "45 \<le> j \<and> j \<le> 55")
    case True
    then have "PADDING ! nat (100 - j - 45) = PADDING ! nat (j - 45)" using pad by blast
    with True show ?thesis unfolding w wj by simp
  next
    case False
    then show ?thesis unfolding w wj by linarith
  qed
  ultimately show ?thesis using run centre by (simp add: pixel_constants)
qed

theorem footprint_mask_symmetric_witness:
  "buffer_sized app_slam_init \<and> center_in_range app_slam_init
   \<and> (0 :: int) \<le> 49 \<and> 49 \<le> GMAP_GRID_EDGE_SIZE_PIXEL \<and> 45 \<le> GMAP_GRID_EDGE_SIZE_PIXEL
   \<and> centered_index (map_center_pixel app_slam_init) 49 45
       \<in> set (vehicle_region (map_center_pixel app_slam_init))
   \<and> centered_index (map_center_pixel app_slam_init) 51 45
       \<in> set (vehicle_region (map_center_pixel app_slam_init))
   \<and> centered_index (map_center_pixel app_slam_init) 49 55
       \<in> set (vehicle_region (map_center_pixel app_slam_init))
   \<and> centered_index (map_center_pixel app_slam_init) 48 45
       \<notin> set (vehicle_region (map_center_pixel app_slam_init))
   \<and> centered_index (map_center_pixel app_slam_init) 52 45
       \<notin> set (vehicle_region (map_center_pixel app_slam_init))"
proof -
  have h: "(0 :: int) \<le> 49" "49 \<le> GMAP_GRID_EDGE_SIZE_PIXEL" "(0 :: int) \<le> 45"
    "45 \<le> GMAP_GRID_EDGE_SIZE_PIXEL" "(0 :: int) \<le> 48" "48 \<le> GMAP_GRID_EDGE_SIZE_PIXEL"
    by (simp_all add: pixel_constants)
  have c: "0 \<le> coord_x (map_center_pixel app_slam_init)"
    "coord_x (map_center_pixel app_slam_init) \<le> 100"
    "0 \<le> coord_y (map_center_pixel app_slam_init)"
    "coord_y (map_center_pixel app_slam_init) \<le> 100"
    by (simp_all add: init_facts)
  have p: "PADDING ! 0 = 4" by (simp add: PADDING_def)
  have a: "centered_index (map_center_pixel app_slam_init) 49 45
       \<in> set (vehicle_region (map_center_pixel app_slam_init))"
    by (subst footprint_window [OF c]) (simp_all add: p)
  have b: "centered_index (map_center_pixel app_slam_init) 48 45
       \<notin> set (vehicle_region (map_center_pixel app_slam_init))"
    by (subst footprint_window [OF c]) (simp_all add: p)
  from footprint_mask_symmetric [OF init_facts(1,2) h(1,2,3,4)]
    footprint_mask_symmetric [OF init_facts(1,2) h(5,6,3,4)] a b
  show ?thesis using init_facts(1,2) by (simp add: pixel_constants)
qed

text \<open>
  C8 (reset). After \<^verbatim>\<open>app_slam_private_resetGlobalMap\<close>, from any map, the buffer has
  \<^verbatim>\<open>GMAP_WN_PIXEL * GMAP_HN_PIXEL\<close> cells and every cell is neutral (0), both components
  of the centre index are \<open>E / 2 = 50\<close>, and both components of the offset are \<open>0\<close>;
  \<^verbatim>\<open>app_slam_init\<close> yields that same map.
\<close>

theorem reset_correct:
  "set (data (app_slam_private_resetGlobalMap gMap)) = {GRID_CELL_NEUTRAL}
   \<and> length (data (app_slam_private_resetGlobalMap gMap)) = nat (GMAP_WN_PIXEL * GMAP_HN_PIXEL)
   \<and> coord_x (map_center_pixel (app_slam_private_resetGlobalMap gMap)) = GMAP_GRID_EDGE_SIZE_PIXEL div 2
   \<and> coord_y (map_center_pixel (app_slam_private_resetGlobalMap gMap)) = GMAP_GRID_EDGE_SIZE_PIXEL div 2
   \<and> GMAP_GRID_EDGE_SIZE_PIXEL div 2 = 50
   \<and> coord_x (map_offset_mm (app_slam_private_resetGlobalMap gMap)) = 0
   \<and> coord_y (map_offset_mm (app_slam_private_resetGlobalMap gMap)) = 0
   \<and> app_slam_init = app_slam_private_resetGlobalMap gMap"
  by (simp add: reset_eq app_slam_init_eq GRID_CELL_NEUTRAL_def pixel_constants)

text \<open>
  C9 (centre index invariant). In every reachable map (the initial one, and any obtained
  by a reset, a translation with both shifts of at most \<open>E\<close> pixels, a clearing of the
  vehicle region or a tick with such shifts, each completing without a fault), both
  components of the centre index lie in \<open>[0, E]\<close>.
\<close>

theorem center_index_invariant:
  assumes "reachable gMap"
  shows "0 \<le> coord_x (map_center_pixel gMap)
    \<and> coord_x (map_center_pixel gMap) \<le> GMAP_GRID_EDGE_SIZE_PIXEL
    \<and> 0 \<le> coord_y (map_center_pixel gMap)
    \<and> coord_y (map_center_pixel gMap) \<le> GMAP_GRID_EDGE_SIZE_PIXEL"
  using reachable_invariant [OF assms] by (simp add: center_in_range_def)

theorem center_index_invariant_witness:
  "reachable (projr (app_slam_private_globalMapUpdate app_slam_init))
   \<and> coord_x (map_center_pixel (projr (app_slam_private_globalMapUpdate app_slam_init))) = 49
   \<and> (49 :: int) \<le> GMAP_GRID_EDGE_SIZE_PIXEL"
  using center_index_invariant [OF first_tick_reachable(2)] first_tick_reachable(2,3)
  by simp

text \<open>
  C10 (cell values). Every cell of every reachable map is neutral (0) or visited (-10);
  hence it lies in the walkable band \<open>[-20, 20]\<close> and never in the occupancy range
  \<open>[1, 100]\<close> or the edge range \<open>[101, 120]\<close>.
\<close>

theorem cell_values_invariant:
  assumes "reachable gMap" and "c \<in> set (data gMap)"
  shows "(c = GRID_CELL_NEUTRAL \<or> c = GRID_CELL_VISITED)
    \<and> GRID_CELL_WALKABLE_THRESHOLD_MIN \<le> sint c \<and> sint c \<le> GRID_CELL_WALKABLE_THRESHOLD_MAX
    \<and> \<not> (1 \<le> sint c \<and> sint c \<le> GRID_CELL_OCCUPANCY_MAX_PROB)
    \<and> \<not> (GRID_CELL_EDGE_MIN_PROB \<le> sint c \<and> sint c \<le> GRID_CELL_EDGE_MAX_PROB)"
proof -
  from reachable_invariant [OF assms(1)] assms(2)
  have c: "c = GRID_CELL_NEUTRAL \<or> c = GRID_CELL_VISITED" by auto
  have "sint GRID_CELL_NEUTRAL = 0" "sint GRID_CELL_VISITED = - 10"
    by (simp_all add: GRID_CELL_NEUTRAL_def GRID_CELL_VISITED_def)
  with c show ?thesis
    by (auto simp: GRID_CELL_WALKABLE_THRESHOLD_MIN_def GRID_CELL_WALKABLE_THRESHOLD_MAX_def
        GRID_CELL_EDGE_MAX_PROB_def GRID_CELL_EDGE_MIN_PROB_def GRID_CELL_OCCUPANCY_MAX_PROB_def)
qed

theorem cell_values_invariant_witness:
  "reachable (projr (app_slam_private_clearVehicleRegion app_slam_init))
   \<and> GRID_CELL_VISITED \<in> set (data (projr (app_slam_private_clearVehicleRegion app_slam_init)))
   \<and> GRID_CELL_WALKABLE_THRESHOLD_MIN \<le> sint GRID_CELL_VISITED
   \<and> sint GRID_CELL_VISITED = - 10"
  using cell_values_invariant [OF first_clear(2,3)] first_clear(2,3)
  by (simp add: GRID_CELL_VISITED_def)

end
